theory Spec2Isabelle
  imports Main "HOL-Library.Code_Target_Nat"
begin

section \<open>Errors, outcomes and bytes\<close>

text \<open>
  Go error values that occur in the buffer, the scanner and the keyword search.
  \<open>EOF\<close> is \<open>io.EOF\<close>, \<open>ErrClosedPipe\<close> is \<open>io.ErrClosedPipe\<close>, \<open>Canceled\<close> and
  \<open>DeadlineExceeded\<close> are the two values \<open>ctx.Err()\<close> can return, \<open>ErrTooLong\<close>,
  \<open>ErrBadReadCount\<close>, \<open>ErrNoProgress\<close> and \<open>ErrAdvanceTooFar\<close> are the tokenizer's own errors,
  \<open>KeywordNotFound\<close> is the package sentinel and \<open>Wrapf e s\<close> is the value built by
  \<open>fmt.Errorf("%w '%s' in output", e, s)\<close>.
\<close>

datatype error =
    EOF
  | ErrClosedPipe
  | Canceled
  | DeadlineExceeded
  | ErrTooLong
  | ErrBadReadCount
  | ErrNoProgress
  | ErrAdvanceTooFar
  | KeywordNotFound
  | Wrapf error string


text \<open>
  A call either returns, or waits on the mutex or the condition variable with nothing in
  the current state that would wake it (\<open>Blocks\<close>), or panics (a slice out of range).
\<close>

datatype 'a outcome = Returns 'a | Blocks | Panics

type_synonym byte = char

section \<open>The shared buffer (multiReaderBuffer) and its reader handles\<close>

text \<open>
  \<open>m_locked\<close> is the state of the mutex \<open>m\<close> (the condition variable's \<open>L\<close>);
  \<open>buf\<close> and \<open>closed\<close> are the fields of the struct.
\<close>

record multiReaderBuffer =
  m_locked :: bool
  buf :: "byte list"
  closed :: bool

definition NewMultiReaderBuffer :: multiReaderBuffer where
  "NewMultiReaderBuffer = \<lparr>m_locked = False, buf = [], closed = False\<rparr>"

text \<open>
  \<open>Write\<close>: the empty write returns before the lock is taken; \<open>Lock\<close> on a held mutex
  waits; on a closed buffer the function returns right after \<open>Lock\<close>, and the source has
  no \<open>Unlock\<close> on that path.
\<close>

definition Write ::
  "multiReaderBuffer \<Rightarrow> byte list \<Rightarrow> (nat \<times> error option) outcome \<times> multiReaderBuffer" where
  "Write b p =
     (if length p = 0 then (Returns (0, None), b)
      else if m_locked b then (Blocks, b)
      else (let b1 = b\<lparr>m_locked := True\<rparr> in
            if closed b1 then (Returns (0, Some ErrClosedPipe), b1)
            else (let b2 = b1\<lparr>buf := buf b1 @ p\<rparr>;
                      b3 = b2\<lparr>m_locked := False\<rparr>
                  in (Returns (length p, None), b3))))"

definition Close :: "multiReaderBuffer \<Rightarrow> error option outcome \<times> multiReaderBuffer" where
  "Close b =
     (if m_locked b then (Blocks, b)
      else (let b1 = b\<lparr>m_locked := True\<rparr>;
                b2 = b1\<lparr>closed := True\<rparr>;
                b3 = b2\<lparr>m_locked := False\<rparr>
            in (Returns None, b3)))"

text \<open>
  A reader handle; its \<open>source\<close> pointer is the one buffer, passed along explicitly.
  The handle's own \<open>closed\<close> field is \<open>rclosed\<close> here.
\<close>

record multiBufferReader =
  offset :: nat
  rclosed :: bool

definition NewReader :: "multiReaderBuffer \<Rightarrow> multiBufferReader" where
  "NewReader b = \<lparr>offset = 0, rclosed = False\<rparr>"

text \<open>
  \<open>Read b r lenp\<close> is \<open>r.Read(p)\<close> with \<open>len(p) = lenp\<close>; a returned pair is
  \<open>(p[0:n], err)\<close>, so the count \<open>n\<close> the source returns is the length of the first
  component. \<open>cv.Wait()\<close> releases the mutex and suspends the caller: with the state as it
  is the call does not return (\<open>Blocks\<close>), and re-evaluates from the top of the loop once a
  write or a close has changed the state. The slice expression \<open>buf[offset:]\<close> panics when
  the offset is beyond the length.
\<close>

definition Read ::
  "multiReaderBuffer \<Rightarrow> multiBufferReader \<Rightarrow> nat \<Rightarrow>
     (byte list \<times> error option) outcome \<times> multiBufferReader \<times> multiReaderBuffer" where
  "Read b r lenp =
     (if lenp = 0 then (Returns ([], None), r, b)
      else if m_locked b then (Blocks, r, b)
      else (let b1 = b\<lparr>m_locked := True\<rparr> in
            if rclosed r then (Returns ([], Some ErrClosedPipe), r, b1\<lparr>m_locked := False\<rparr>)
            else if length (buf b1) < offset r then (Panics, r, b1)
            else (let avail = drop (offset r) (buf b1);
                      n = min lenp (length avail);
                      sourceClosed = closed b1
                  in if n = 0 \<and> \<not> sourceClosed then (Blocks, r, b1\<lparr>m_locked := False\<rparr>)
                     else (let b2 = b1\<lparr>m_locked := False\<rparr> in
                           if n = 0 then (Returns ([], Some EOF), r, b2)
                           else (Returns (take n avail, None),
                                 r\<lparr>offset := offset r + n\<rparr>, b2)))))"

definition ReaderClose ::
  "multiReaderBuffer \<Rightarrow> multiBufferReader \<Rightarrow>
     error option outcome \<times> multiBufferReader \<times> multiReaderBuffer" where
  "ReaderClose b r =
     (if m_locked b then (Blocks, r, b)
      else (let b1 = b\<lparr>m_locked := True\<rparr>;
                r1 = r\<lparr>rclosed := True\<rparr>;
                b2 = b1\<lparr>m_locked := False\<rparr>
            in (Returns None, r1, b2)))"


section \<open>Histories of one buffer and one reader handle\<close>

text \<open>
  A history is a sequence of calls made one after the other on one buffer: writes, the
  close, the creation of the reader handle, and reads on that handle with any request
  size. \<open>w_got\<close> collects the bytes the reads have returned. A read that waits returns
  nothing; the consumer calls again later in the history or in the final loop.
\<close>

datatype event = EvWrite "byte list" | EvClose | EvNewReader | EvRead nat

record world =
  w_buf :: multiReaderBuffer
  w_reader :: "multiBufferReader option"
  w_got :: "byte list"

definition init_world :: world where
  "init_world = \<lparr>w_buf = NewMultiReaderBuffer, w_reader = None, w_got = []\<rparr>"

fun step :: "world \<Rightarrow> event \<Rightarrow> world" where
  "step w (EvWrite p) = w\<lparr>w_buf := snd (Write (w_buf w) p)\<rparr>"
| "step w EvClose = w\<lparr>w_buf := snd (Close (w_buf w))\<rparr>"
| "step w EvNewReader = w\<lparr>w_reader := Some (NewReader (w_buf w))\<rparr>"
| "step w (EvRead lenp) =
     (case w_reader w of
        None \<Rightarrow> w
      | Some r \<Rightarrow>
          (case Read (w_buf w) r lenp of
             (Returns (d, err), r', b') \<Rightarrow>
               w\<lparr>w_buf := b', w_reader := Some r', w_got := w_got w @ d\<rparr>
           | (Blocks, r', b') \<Rightarrow> w\<lparr>w_buf := b', w_reader := Some r'\<rparr>
           | (Panics, r', b') \<Rightarrow> w\<lparr>w_buf := b', w_reader := Some r'\<rparr>))"

definition run :: "event list \<Rightarrow> world" where
  "run es = foldl step init_world es"

fun writes_of :: "event list \<Rightarrow> byte list list" where
  "writes_of [] = []"
| "writes_of (EvWrite p # es) = p # writes_of es"
| "writes_of (e # es) = writes_of es"

text \<open>
  The histories of the property: every write comes before the close, there is one close
  and one reader handle, created anywhere, and reads only on an existing handle. The
  two flags say whether the buffer is closed and whether the handle exists.
\<close>

fun valid_from :: "bool \<Rightarrow> bool \<Rightarrow> event list \<Rightarrow> bool" where
  "valid_from c a [] = (c \<and> a)"
| "valid_from c a (EvWrite p # es) = (\<not> c \<and> valid_from c a es)"
| "valid_from c a (EvClose # es) = (\<not> c \<and> valid_from True a es)"
| "valid_from c a (EvNewReader # es) = (\<not> a \<and> valid_from c True es)"
| "valid_from c a (EvRead lenp # es) = (a \<and> valid_from c a es)"

definition valid_history :: "event list \<Rightarrow> bool" where
  "valid_history es = valid_from False False es"

text \<open>
  The consumer's loop: read with requests of \<open>k\<close> bytes, keep what each read returns,
  stop when a read reports \<open>io.EOF\<close>. \<open>None\<close> is a loop that never ends (a read that
  waits for ever, or reads that never report the end of the stream).
\<close>

partial_function (option) read_until_eof ::
  "multiReaderBuffer \<Rightarrow> multiBufferReader \<Rightarrow> nat \<Rightarrow> byte list \<Rightarrow> byte list option" where
  "read_until_eof b r k acc =
     (case Read b r k of
        (Returns (d, err), r', b') \<Rightarrow>
          (if err = Some EOF then Some (acc @ d) else read_until_eof b' r' k (acc @ d))
      | (Blocks, r', b') \<Rightarrow> None
      | (Panics, r', b') \<Rightarrow> None)"

declare read_until_eof.simps [code]

definition read_all_after :: "event list \<Rightarrow> nat \<Rightarrow> byte list option" where
  "read_all_after es k =
     (let w = run es in
      case w_reader w of
        None \<Rightarrow> None
      | Some r \<Rightarrow> read_until_eof (w_buf w) r k (w_got w))"


section \<open>Readers behind the scanner and the cancellable wrapper\<close>

text \<open>
  The \<open>io.ReadCloser\<close> values of the repository: \<open>FakeCloser rest\<close> is the test's
  \<open>fakeCloser\<close> over a \<open>strings.Reader\<close> with \<open>rest\<close> still unread (its \<open>Close\<close> does
  nothing), and \<open>Handle b r\<close> is a reader handle \<open>r\<close> together with the state \<open>b\<close> of the
  buffer its \<open>source\<close> field points to.
\<close>

datatype source = FakeCloser "byte list" | Handle multiReaderBuffer multiBufferReader

fun src_Read :: "source \<Rightarrow> nat \<Rightarrow> (byte list \<times> error option) outcome \<times> source" where
  "src_Read (FakeCloser rest) lenp =
     (if rest = [] then (Returns ([], Some EOF), FakeCloser rest)
      else (let n = min lenp (length rest)
            in (Returns (take n rest, None), FakeCloser (drop n rest))))"
| "src_Read (Handle b r) lenp =
     (case Read b r lenp of (res, r', b') \<Rightarrow> (res, Handle b' r'))"

fun src_Close :: "source \<Rightarrow> error option outcome \<times> source" where
  "src_Close (FakeCloser rest) = (Returns None, FakeCloser rest)"
| "src_Close (Handle b r) =
     (case ReaderClose b r of (res, r', b') \<Rightarrow> (res, Handle b' r'))"

text \<open>
  Contexts are named by numbers; \<open>env c\<close> is what \<open>c.Err()\<close> returns while the modelled
  call runs: \<open>None\<close> while \<open>c.Done()\<close> is open, \<open>Some Canceled\<close> or
  \<open>Some DeadlineExceeded\<close> once it is closed.
\<close>

type_synonym ctx_id = nat
type_synonym ctx_env = "ctx_id \<Rightarrow> error option"

text \<open>
  The \<open>select\<close> of \<open>cancellableReader.Read\<close> has two cases. When the context is done the
  cancellation case can always proceed, and the result case can proceed once the
  goroutine has finished its read: \<open>ReadFirst\<close> is the run where the result is received,
  \<open>CancelFirst\<close> the run where the cancellation case is taken before the goroutine's read
  has done anything, \<open>CancelAfterRead\<close> the run where the goroutine's read has finished
  and its result is left unreceived. \<open>nselect\<close> counts the selects of a wrapper, and
  \<open>sel i\<close> is the run of its \<open>i\<close>-th select.
\<close>

datatype pick = ReadFirst | CancelFirst | CancelAfterRead

record cancellableReader =
  reader :: source
  ctx :: ctx_id
  nselect :: nat

text \<open>
  The cancellation case: close the reader and return \<open>(0, ctx.Err())\<close>. The abandoned
  read, if it has not finished, then runs against the closed reader; nobody receives
  its result.
\<close>

definition cancel_case ::
  "error \<Rightarrow> bool \<Rightarrow> source \<Rightarrow> nat \<Rightarrow> cancellableReader \<Rightarrow>
     (byte list \<times> error option) outcome \<times> cancellableReader" where
  "cancel_case e read_pending src lenp cr =
     (case src_Close src of
        (Returns x, src1) \<Rightarrow>
          (Returns ([], Some e),
           cr\<lparr>reader := (if read_pending then snd (src_Read src1 lenp) else src1)\<rparr>)
      | (Blocks, src1) \<Rightarrow> (Blocks, cr\<lparr>reader := src1\<rparr>)
      | (Panics, src1) \<Rightarrow> (Panics, cr\<lparr>reader := src1\<rparr>))"

definition cr_Read ::
  "ctx_env \<Rightarrow> (nat \<Rightarrow> pick) \<Rightarrow> cancellableReader \<Rightarrow> nat \<Rightarrow>
     (byte list \<times> error option) outcome \<times> cancellableReader" where
  "cr_Read env sel cr lenp =
     (let cr1 = cr\<lparr>nselect := nselect cr + 1\<rparr> in
      case src_Read (reader cr) lenp of
        (Panics, src') \<Rightarrow> (Panics, cr1\<lparr>reader := src'\<rparr>)
      | (Blocks, src') \<Rightarrow>
          (case env (ctx cr) of
             None \<Rightarrow> (Blocks, cr1\<lparr>reader := src'\<rparr>)
           | Some e \<Rightarrow> cancel_case e True (reader cr) lenp cr1)
      | (Returns res, src') \<Rightarrow>
          (case env (ctx cr) of
             None \<Rightarrow> (Returns res, cr1\<lparr>reader := src'\<rparr>)
           | Some e \<Rightarrow>
               (case sel (nselect cr) of
                  ReadFirst \<Rightarrow> (Returns res, cr1\<lparr>reader := src'\<rparr>)
                | CancelFirst \<Rightarrow> cancel_case e True (reader cr) lenp cr1
                | CancelAfterRead \<Rightarrow> cancel_case e False src' lenp cr1)))"

section \<open>The line tokenizer (bufio.Scanner with bufio.ScanLines)\<close>

text \<open>
  The tokenizer belongs to Go's standard library; this is its \<open>Scan\<close> with the default
  split function and the default sizes. \<open>s_buf_len\<close> is \<open>len(s.buf)\<close>, \<open>s_start\<close> is
  \<open>s.start\<close>, \<open>s_pending\<close> is \<open>s.buf[s.start:s.end]\<close> (so \<open>s.end\<close> is the start plus its
  length), \<open>s_err\<close> and \<open>s_token\<close> are \<open>s.err\<close> and \<open>s.token\<close>. The fields \<open>done\<close> and
  \<open>empties\<close> are left out: \<open>ScanLines\<close> never returns \<open>ErrFinalToken\<close>, and never a token
  without advancing.
\<close>

record Scanner =
  s_buf_len :: nat
  s_start :: nat
  s_pending :: "byte list"
  s_err :: "error option"
  s_token :: "byte list"

definition NewScanner :: Scanner where
  "NewScanner = \<lparr>s_buf_len = 0, s_start = 0, s_pending = [], s_err = None, s_token = []\<rparr>"

definition maxTokenSize :: nat where "maxTokenSize = 64 * 1024"
definition startBufSize :: nat where "startBufSize = 4096"
definition maxConsecutiveEmptyReads :: nat where "maxConsecutiveEmptyReads = 100"
definition maxInt :: nat where "maxInt = 2 ^ 63 - 1"

definition newline :: byte where "newline = CHR 0x0A"
definition carriage_return :: byte where "carriage_return = CHR 0x0D"

fun IndexByte :: "byte list \<Rightarrow> byte \<Rightarrow> nat option" where
  "IndexByte [] c = None"
| "IndexByte (x # xs) c = (if x = c then Some 0 else map_option Suc (IndexByte xs c))"

definition dropCR :: "byte list \<Rightarrow> byte list" where
  "dropCR data = (if data \<noteq> [] \<and> last data = carriage_return then butlast data else data)"

text \<open>\<open>ScanLines data atEOF\<close> returns \<open>(advance, token)\<close>; its error is always nil.\<close>

definition ScanLines :: "byte list \<Rightarrow> bool \<Rightarrow> nat \<times> byte list option" where
  "ScanLines data atEOF =
     (if atEOF \<and> length data = 0 then (0, None)
      else (case IndexByte data newline of
              Some i \<Rightarrow> (i + 1, Some (dropCR (take i data)))
            | None \<Rightarrow> (if atEOF then (length data, Some (dropCR data)) else (0, None))))"

definition setErr :: "Scanner \<Rightarrow> error \<Rightarrow> Scanner" where
  "setErr s e = (if s_err s = None \<or> s_err s = Some EOF then s\<lparr>s_err := Some e\<rparr> else s)"

definition s_end :: "Scanner \<Rightarrow> nat" where
  "s_end s = s_start s + length (s_pending s)"

text \<open>The inner loop of \<open>Scan\<close>: read until data, an error, or too many empty reads.\<close>

function read_loop ::
  "ctx_env \<Rightarrow> (nat \<Rightarrow> pick) \<Rightarrow> cancellableReader \<Rightarrow> Scanner \<Rightarrow> nat \<Rightarrow>
     Scanner outcome \<times> cancellableReader" where
  "read_loop env sel cr s loop =
     (if s_buf_len s < s_end s then (Panics, cr)
      else (case cr_Read env sel cr (s_buf_len s - s_end s) of
              (Panics, cr') \<Rightarrow> (Panics, cr')
            | (Blocks, cr') \<Rightarrow> (Blocks, cr')
            | (Returns (d, err), cr') \<Rightarrow>
                (if s_buf_len s - s_end s < length d then (Returns (setErr s ErrBadReadCount), cr')
                 else (let s1 = s\<lparr>s_pending := s_pending s @ d\<rparr> in
                       case err of
                         Some e \<Rightarrow> (Returns (setErr s1 e), cr')
                       | None \<Rightarrow>
                           (if 0 < length d then (Returns s1, cr')
                            else if maxConsecutiveEmptyReads < loop + 1
                            then (Returns (setErr s1 ErrNoProgress), cr')
                            else read_loop env sel cr' s1 (loop + 1))))))"
  by pat_completeness auto
termination
  by (relation "measure (\<lambda>(env, sel, cr, s, loop). Suc maxConsecutiveEmptyReads - loop)") auto


lemma setErr_fields [simp]:
  "s_err (setErr s e) \<noteq> None"
  "s_buf_len (setErr s e) = s_buf_len s"
  "s_start (setErr s e) = s_start s"
  "s_pending (setErr s e) = s_pending s"
  "s_token (setErr s e) = s_token s"
  by (auto simp: setErr_def)

text \<open>
  What a read of the inner loop leaves behind: an error, or more pending bytes that
  still fit the buffer. The outer loop of \<open>Scan\<close> terminates because of it.
\<close>

lemma read_loop_progress:
  "read_loop env sel cr s loop = (Returns s', cr') \<Longrightarrow>
     s_buf_len s' = s_buf_len s \<and>
     (s_err s' \<noteq> None \<or>
      (s_err s' = s_err s \<and> length (s_pending s) < length (s_pending s') \<and>
       length (s_pending s') \<le> s_buf_len s'))"
proof (induction env sel cr s loop arbitrary: s' cr' rule: read_loop.induct)
  case (1 env sel cr s loop)
  show ?case
  proof (cases "s_buf_len s < s_end s")
    case True
    with "1.prems" show ?thesis by (simp add: read_loop.simps [of env sel cr s loop])
  next
    case fits: False
    obtain res cr1 where rd: "cr_Read env sel cr (s_buf_len s - s_end s) = (res, cr1)"
      by (cases "cr_Read env sel cr (s_buf_len s - s_end s)") auto
    show ?thesis
    proof (cases res)
      case (Returns x)
      obtain d err where x: "x = (d, err)" by (cases x) auto
      show ?thesis
      proof (cases "s_buf_len s - s_end s < length d")
        case True
        with "1.prems" fits rd Returns x show ?thesis
          by (auto simp: read_loop.simps [of env sel cr s loop])
      next
        case room: False
        show ?thesis
        proof (cases err)
          case (Some e)
          with "1.prems" fits rd Returns x room show ?thesis
            by (auto simp: read_loop.simps [of env sel cr s loop])
        next
          case None
          show ?thesis
          proof (cases "0 < length d")
            case True
            with "1.prems" fits rd Returns x room None show ?thesis
              by (auto simp: read_loop.simps [of env sel cr s loop] s_end_def)
          next
            case empty: False
            show ?thesis
            proof (cases "maxConsecutiveEmptyReads < loop + 1")
              case True
              with "1.prems" fits rd Returns x room None empty show ?thesis
                by (auto simp: read_loop.simps [of env sel cr s loop])
            next
              case False
              with "1.prems" fits rd Returns x room None empty
              have rec: "read_loop env sel cr1 (s\<lparr>s_pending := s_pending s @ d\<rparr>) (loop + 1)
                           = (Returns s', cr')"
                by (simp add: read_loop.simps [of env sel cr s loop])
              have "s_buf_len s' = s_buf_len (s\<lparr>s_pending := s_pending s @ d\<rparr>) \<and>
                    (s_err s' \<noteq> None \<or>
                     (s_err s' = s_err (s\<lparr>s_pending := s_pending s @ d\<rparr>) \<and>
                      length (s_pending (s\<lparr>s_pending := s_pending s @ d\<rparr>))
                        < length (s_pending s') \<and>
                      length (s_pending s') \<le> s_buf_len s'))"
                using "1.IH" [OF fits rd [symmetric] Returns x [symmetric] room refl None empty False rec] .
              with empty show ?thesis by auto
            qed
          qed
        qed
      qed
    next
      case Blocks
      with "1.prems" fits rd show ?thesis by (simp add: read_loop.simps [of env sel cr s loop])
    next
      case Panics
      with "1.prems" fits rd show ?thesis by (simp add: read_loop.simps [of env sel cr s loop])
    qed
  qed
qed


text \<open>
  The first part of an iteration of \<open>Scan\<close>: ask the split function for a token from
  what is pending, and advance.
\<close>

datatype token_step = Token Scanner | NoToken Scanner | Failed Scanner

definition try_token :: "Scanner \<Rightarrow> token_step" where
  "try_token s =
     (if s_start s < s_end s \<or> s_err s \<noteq> None then
        (case ScanLines (s_pending s) (s_err s \<noteq> None) of
           (adv, token) \<Rightarrow>
             (if length (s_pending s) < adv then Failed (setErr s ErrAdvanceTooFar)
              else (let s1 = s\<lparr>s_start := s_start s + adv, s_pending := drop adv (s_pending s)\<rparr>
                    in case token of
                         Some t \<Rightarrow> Token (s1\<lparr>s_token := t\<rparr>)
                       | None \<Rightarrow> NoToken (s1\<lparr>s_token := []\<rparr>))))
      else NoToken s)"

text \<open>Shift the pending bytes to the front of the buffer when space is needed.\<close>

definition shift :: "Scanner \<Rightarrow> Scanner" where
  "shift s =
     (if 0 < s_start s \<and> (s_end s = s_buf_len s \<or> s_buf_len s div 2 < s_start s)
      then s\<lparr>s_start := 0\<rparr> else s)"

text \<open>Double a full buffer; \<open>None\<close> is the token that is too long.\<close>

definition grow :: "Scanner \<Rightarrow> Scanner option" where
  "grow s =
     (if s_end s = s_buf_len s then
        (if maxTokenSize \<le> s_buf_len s \<or> maxInt div 2 < s_buf_len s then None
         else (let newSize = s_buf_len s * 2;
                   newSize1 = (if newSize = 0 then startBufSize else newSize);
                   newSize2 = min newSize1 maxTokenSize
               in Some (s\<lparr>s_buf_len := newSize2, s_start := 0\<rparr>)))
      else Some s)"

function Scan ::
  "ctx_env \<Rightarrow> (nat \<Rightarrow> pick) \<Rightarrow> cancellableReader \<Rightarrow> Scanner \<Rightarrow>
     (bool \<times> Scanner) outcome \<times> cancellableReader" where
  "Scan env sel cr s =
     (case try_token s of
        Failed s1 \<Rightarrow> (Returns (False, s1), cr)
      | Token s1 \<Rightarrow> (Returns (True, s1), cr)
      | NoToken s1 \<Rightarrow>
          (if s_err s1 \<noteq> None then (Returns (False, s1\<lparr>s_start := 0, s_pending := []\<rparr>), cr)
           else (case grow (shift s1) of
                   None \<Rightarrow> (Returns (False, setErr (shift s1) ErrTooLong), cr)
                 | Some s2 \<Rightarrow>
                     (case read_loop env sel cr s2 0 of
                        (Returns s3, cr') \<Rightarrow> Scan env sel cr' s3
                      | (Blocks, cr') \<Rightarrow> (Blocks, cr')
                      | (Panics, cr') \<Rightarrow> (Panics, cr')))))"
  by pat_completeness auto

lemma try_token_NoToken:
  "try_token s = NoToken s1 \<Longrightarrow> s_pending s1 = s_pending s \<and> s_err s1 = s_err s \<and> s_buf_len s1 = s_buf_len s"
  by (auto simp: try_token_def ScanLines_def Let_def split: if_splits option.splits prod.splits)

lemma grow_shift_fields:
  "grow (shift s) = Some s2 \<Longrightarrow> s_pending s2 = s_pending s \<and> s_err s2 = s_err s \<and>
     max (s_buf_len s2) maxTokenSize = max (s_buf_len s) maxTokenSize"
  by (auto simp: grow_def shift_def Let_def split: if_splits)

termination Scan
proof (relation "measure (\<lambda>(env, sel, cr, s).
          if s_err s \<noteq> None then 0
          else 1 + (1 + max (s_buf_len s) maxTokenSize - length (s_pending s)))", goal_cases)
  case 1
  show ?case by simp
next
  case (2 env sel cr s s1 s2 x y s3)
  from 2 have a: "s_pending s1 = s_pending s" "s_err s1 = s_err s" "s_buf_len s1 = s_buf_len s"
    using try_token_NoToken by auto
  from 2 have b: "s_pending s2 = s_pending s1" "s_err s2 = s_err s1"
     "max (s_buf_len s2) maxTokenSize = max (s_buf_len s1) maxTokenSize"
    using grow_shift_fields by auto
  from 2 have rl: "read_loop env sel cr s2 0 = (Returns s3, y)" by simp
  note p = read_loop_progress [OF rl]
  from 2 a have e: "s_err s = None" by simp
  show ?case
  proof (cases "s_err s3 = None")
    case True
    with p have "length (s_pending s2) < length (s_pending s3)"
      "length (s_pending s3) \<le> s_buf_len s3" "s_buf_len s3 = s_buf_len s2" by auto
    with a b e True show ?thesis by auto
  next
    case False
    with e show ?thesis by simp
  qed
qed


declare Scan.simps [simp del]
declare read_loop.simps [simp del]

text \<open>\<open>scanner.Err()\<close>: the end of the stream is not an error of the tokenizer.\<close>

definition Scanner_Err :: "Scanner \<Rightarrow> error option" where
  "Scanner_Err s = (if s_err s = Some EOF then None else s_err s)"

section \<open>The keyword search\<close>

text \<open>\<open>strings.Contains\<close>: some suffix of the line starts with the substring.\<close>

fun Contains :: "string \<Rightarrow> string \<Rightarrow> bool" where
  "Contains [] substr = (substr = [])"
| "Contains (c # cs) substr = (take (length substr) (c # cs) = substr \<or> Contains cs substr)"

text \<open>
  \<open>waitForKeyword env sel c cr s substr\<close>: \<open>c\<close> is the context of the call, \<open>s\<close> the
  tokenizer and \<open>cr\<close> the wrapper the tokenizer reads from. The result is the error
  returned (\<open>None\<close> is nil: found) with the tokenizer and the wrapper as the call leaves
  them.
\<close>

partial_function (option) waitForKeyword ::
  "ctx_env \<Rightarrow> (nat \<Rightarrow> pick) \<Rightarrow> ctx_id \<Rightarrow> cancellableReader \<Rightarrow> Scanner \<Rightarrow> string \<Rightarrow>
     (error option outcome \<times> Scanner \<times> cancellableReader) option" where
  "waitForKeyword env sel c cr s substr =
     (case Scan env sel cr s of
        (Returns (ok, s1), cr1) \<Rightarrow>
          (if ok then
             (let line = s_token s1;
                  found = Contains line substr
              in if found then Some (Returns None, s1, cr1)
                 else (case env c of
                         Some e \<Rightarrow> Some (Returns (Some e), s1, cr1)
                       | None \<Rightarrow> waitForKeyword env sel c cr1 s1 substr))
           else (case Scanner_Err s1 of
                   Some e \<Rightarrow> Some (Returns (Some e), s1, cr1)
                 | None \<Rightarrow> Some (Returns (Some (Wrapf KeywordNotFound substr)), s1, cr1)))
      | (Blocks, cr1) \<Rightarrow> Some (Blocks, s, cr1)
      | (Panics, cr1) \<Rightarrow> Some (Panics, s, cr1))"

declare waitForKeyword.simps [code]

text \<open>
  \<open>StreamScanner\<close>: \<open>source\<close> and the wrapper's \<open>reader\<close> are one object, so its state
  is written back to both after a call. A wrapper without a tokenizer cannot be built
  by the code; calling \<open>Scan\<close> on the nil tokenizer would panic.
\<close>

record StreamScanner =
  ss_source :: source
  ss_reader :: "cancellableReader option"
  ss_scanner :: "Scanner option"

definition NewStreamScanner :: "source \<Rightarrow> StreamScanner" where
  "NewStreamScanner r = \<lparr>ss_source = r, ss_reader = None, ss_scanner = None\<rparr>"

definition StreamScanner_WaitForKeyword ::
  "ctx_env \<Rightarrow> (nat \<Rightarrow> pick) \<Rightarrow> StreamScanner \<Rightarrow> ctx_id \<Rightarrow> string \<Rightarrow>
     (error option outcome \<times> StreamScanner) option" where
  "StreamScanner_WaitForKeyword env sel ss c substr =
     (let ss1 = (if ss_reader ss = None
                 then ss\<lparr>ss_reader := Some \<lparr>reader = ss_source ss, ctx = c, nselect = 0\<rparr>,
                         ss_scanner := Some NewScanner\<rparr>
                 else ss)
      in case (ss_reader ss1, ss_scanner ss1) of
           (Some cr, Some s) \<Rightarrow>
             (case waitForKeyword env sel c cr s substr of
                None \<Rightarrow> None
              | Some (res, s', cr') \<Rightarrow>
                  Some (res, ss1\<lparr>ss_source := reader cr', ss_reader := Some cr',
                                 ss_scanner := Some s'\<rparr>))
         | _ \<Rightarrow> Some (Panics, ss1))"

text \<open>
  \<open>AccumulatedOutput\<close>: only the buffer matters to the search; the tee to the other
  writer is left out. Each search builds its own handle and tokenizer; the buffer is
  given back as the handle's reads and closes leave it.
\<close>

record AccumulatedOutput =
  ao_buf :: multiReaderBuffer

definition AccumulatedOutput_NewReader :: "AccumulatedOutput \<Rightarrow> source" where
  "AccumulatedOutput_NewReader s = Handle (ao_buf s) (NewReader (ao_buf s))"

fun source_buffer :: "source \<Rightarrow> multiReaderBuffer \<Rightarrow> multiReaderBuffer" where
  "source_buffer (Handle b r) b0 = b"
| "source_buffer (FakeCloser rest) b0 = b0"

definition AccumulatedOutput_WaitForKeyword ::
  "ctx_env \<Rightarrow> (nat \<Rightarrow> pick) \<Rightarrow> AccumulatedOutput \<Rightarrow> ctx_id \<Rightarrow> string \<Rightarrow>
     (error option outcome \<times> AccumulatedOutput) option" where
  "AccumulatedOutput_WaitForKeyword env sel s c substr =
     (case env c of
        Some e \<Rightarrow> Some (Returns (Some e), s)
      | None \<Rightarrow>
          (let cr = \<lparr>reader = AccumulatedOutput_NewReader s, ctx = c, nselect = 0\<rparr>;
               scanner = NewScanner
           in case waitForKeyword env sel c cr scanner substr of
                None \<Rightarrow> None
              | Some (res, s', cr') \<Rightarrow>
                  Some (res, s\<lparr>ao_buf := source_buffer (reader cr') (ao_buf s)\<rparr>)))"


text \<open>Searches made one after the other on one \<open>StreamScanner\<close>, each with its context.\<close>

fun StreamScanner_searches ::
  "ctx_env \<Rightarrow> (nat \<Rightarrow> pick) \<Rightarrow> StreamScanner \<Rightarrow> (ctx_id \<times> string) list \<Rightarrow>
     (error option outcome list \<times> StreamScanner) option" where
  "StreamScanner_searches env sel ss [] = Some ([], ss)"
| "StreamScanner_searches env sel ss ((c, substr) # calls) =
     (case StreamScanner_WaitForKeyword env sel ss c substr of
        None \<Rightarrow> None
      | Some (res, ss1) \<Rightarrow>
          (case StreamScanner_searches env sel ss1 calls of
             None \<Rightarrow> None
           | Some (rs, ss2) \<Rightarrow> Some (res # rs, ss2)))"

text \<open>The same for one \<open>AccumulatedOutput\<close>.\<close>

fun AccumulatedOutput_searches ::
  "ctx_env \<Rightarrow> (nat \<Rightarrow> pick) \<Rightarrow> AccumulatedOutput \<Rightarrow> (ctx_id \<times> string) list \<Rightarrow>
     (error option outcome list \<times> AccumulatedOutput) option" where
  "AccumulatedOutput_searches env sel s [] = Some ([], s)"
| "AccumulatedOutput_searches env sel s ((c, substr) # calls) =
     (case AccumulatedOutput_WaitForKeyword env sel s c substr of
        None \<Rightarrow> None
      | Some (res, s1) \<Rightarrow>
          (case AccumulatedOutput_searches env sel s1 calls of
             None \<Rightarrow> None
           | Some (rs, s2) \<Rightarrow> Some (res # rs, s2)))"



text \<open>
  A text cut into lines at the newline bytes, as \<open>ScanLines\<close> cuts it (the carriage
  return still there); and a substring found in a line such that this line and the
  lines before it are shorter than the largest token.
\<close>

function lines_of :: "byte list \<Rightarrow> byte list list" where
  "lines_of text =
     (if text = [] then []
      else (case IndexByte text newline of
              Some i \<Rightarrow> take i text # lines_of (drop (i + 1) text)
            | None \<Rightarrow> [text]))"
  by pat_completeness auto
termination
  by (relation "measure length") auto

declare lines_of.simps [simp del]

fun found_in :: "byte list list \<Rightarrow> string \<Rightarrow> bool" where
  "found_in [] substr = False"
| "found_in (l # ls) substr =
     (length l < maxTokenSize \<and> (Contains (dropCR l) substr \<or> found_in ls substr))"

text \<open>
  A stream that will not grow: the test's reader, or an open handle on a closed buffer
  whose mutex is free. \<open>remaining\<close> is what is still to be read from it.
\<close>

fun remaining :: "source \<Rightarrow> byte list" where
  "remaining (FakeCloser rest) = rest"
| "remaining (Handle b r) = drop (offset r) (buf b)"

fun finished :: "source \<Rightarrow> bool" where
  "finished (FakeCloser rest) = True"
| "finished (Handle b r) =
     (closed b \<and> \<not> m_locked b \<and> \<not> rclosed r \<and> offset r \<le> length (buf b))"

text \<open>The tokenizer after an iteration of \<open>Scan\<close> that found no token.\<close>

definition after_no_token :: "Scanner \<Rightarrow> Scanner" where
  "after_no_token s = (if s_pending s = [] then s else s\<lparr>s_token := []\<rparr>)"

text \<open>
  What holds of a history's state between calls: the mutex is free, and the handle, once
  it exists, is open with its offset within the content and has returned exactly the
  bytes before its offset.
\<close>

definition world_inv :: "world \<Rightarrow> bool" where
  "world_inv w =
     (\<not> m_locked (w_buf w) \<and>
      (case w_reader w of
         None \<Rightarrow> w_got w = []
       | Some r \<Rightarrow> \<not> rclosed r \<and> offset r \<le> length (buf (w_buf w)) \<and>
                   w_got w = take (offset r) (buf (w_buf w))))"

text \<open>
  The invariant of the tokenizer between scans while no error has occurred, and what a
  scan does in terms of the text still unscanned (the pending bytes followed by what
  the reader has left): the next line if its newline is among the first
  \<open>maxTokenSize\<close> bytes, the last unterminated line if it is shorter than that, the end
  of the stream on an empty text, and \<open>ErrTooLong\<close> otherwise.
\<close>

definition scan_inv :: "Scanner \<Rightarrow> bool" where
  "scan_inv s = (s_end s \<le> s_buf_len s \<and> s_buf_len s \<le> maxTokenSize \<and> s_err s = None)"

definition scan_result :: "byte list \<Rightarrow> bool \<Rightarrow> Scanner \<Rightarrow> byte list \<Rightarrow> bool" where
  "scan_result text ok s' rest' =
     (case IndexByte text newline of
        Some i \<Rightarrow>
          (if i < maxTokenSize
           then ok \<and> s_token s' = dropCR (take i text) \<and> s_pending s' @ rest' = drop (i + 1) text \<and>
                scan_inv s'
           else \<not> ok \<and> s_err s' = Some ErrTooLong)
      | None \<Rightarrow>
          (if text = [] then \<not> ok \<and> s_err s' = Some EOF \<and> s_pending s' = []
           else if length text < maxTokenSize
           then ok \<and> s_token s' = dropCR text \<and> s_pending s' = [] \<and> rest' = [] \<and>
                s_err s' = Some EOF
           else \<not> ok \<and> s_err s' = Some ErrTooLong))"





section \<open>The shared buffer: single calls\<close>

text \<open>What each call does when the mutex is free.\<close>

lemma unlock_free [simp]: "\<not> m_locked b \<Longrightarrow> b\<lparr>m_locked := False\<rparr> = b"
  by (cases b) simp

lemma Read_closed_handle:
  "\<not> m_locked b \<Longrightarrow> rclosed r \<Longrightarrow> 0 < lenp \<Longrightarrow>
     Read b r lenp = (Returns ([], Some ErrClosedPipe), r, b)"
  by (simp add: Read_def)

lemma Read_data:
  "\<not> m_locked b \<Longrightarrow> \<not> rclosed r \<Longrightarrow> 0 < lenp \<Longrightarrow> offset r < length (buf b) \<Longrightarrow>
     Read b r lenp =
       (Returns (take (min lenp (length (buf b) - offset r)) (drop (offset r) (buf b)), None),
        r\<lparr>offset := offset r + min lenp (length (buf b) - offset r)\<rparr>, b)"
  by (simp add: Read_def Let_def)

lemma Read_eof:
  "\<not> m_locked b \<Longrightarrow> \<not> rclosed r \<Longrightarrow> 0 < lenp \<Longrightarrow> offset r = length (buf b) \<Longrightarrow> closed b \<Longrightarrow>
     Read b r lenp = (Returns ([], Some EOF), r, b)"
  by (simp add: Read_def Let_def)

lemma Read_waits:
  "\<not> m_locked b \<Longrightarrow> \<not> rclosed r \<Longrightarrow> 0 < lenp \<Longrightarrow> offset r = length (buf b) \<Longrightarrow> \<not> closed b \<Longrightarrow>
     Read b r lenp = (Blocks, r, b)"
  by (simp add: Read_def Let_def)

lemma Write_open:
  "\<not> m_locked b \<Longrightarrow> \<not> closed b \<Longrightarrow>
     Write b p = (Returns (length p, None), b\<lparr>buf := buf b @ p\<rparr>)"
  by (cases b) (simp add: Write_def Let_def)

lemma Close_free:
  "\<not> m_locked b \<Longrightarrow> Close b = (Returns None, b\<lparr>closed := True\<rparr>)"
  by (cases b) (simp add: Close_def Let_def)

lemma ReaderClose_free:
  "\<not> m_locked b \<Longrightarrow> ReaderClose b r = (Returns None, r\<lparr>rclosed := True\<rparr>, b)"
  by (simp add: ReaderClose_def Let_def)


lemma lock_free_after_calls:
  assumes "\<not> m_locked b"
  shows "\<not> m_locked (snd (Close b))"
    and "\<not> closed b \<Longrightarrow> \<not> m_locked (snd (Write b p))"
    and "\<not> m_locked (snd (Write b []))"
    and "length (buf b) \<ge> offset r \<Longrightarrow> \<not> m_locked (snd (snd (Read b r lenp)))"
    and "\<not> m_locked (snd (snd (ReaderClose b r)))"
  using assms by (auto simp: Close_def Write_def Read_def ReaderClose_def Let_def)

text \<open>
  C2. Every public operation on the shared buffer releases the mutex before it returns.
  This fails for a non-empty \<open>Write\<close> on a closed buffer: the call returns the
  closed-pipe error with the mutex still held. (The other calls do release it, see
  \<open>lock_free_after_calls\<close>.)
\<close>

theorem Write_on_closed_buffer_keeps_lock:
  "Write (snd (Close NewMultiReaderBuffer)) ''x'' =
     (Returns (0, Some ErrClosedPipe), \<lparr>m_locked = True, buf = [], closed = True\<rparr>)"
  by (simp add: Write_def Close_def NewMultiReaderBuffer_def Let_def)


text \<open>
  C9. A non-empty write on a closed buffer fails with the closed-pipe error and appends
  nothing. The first such write does; it leaves the mutex held, so the second one waits
  for the mutex and never returns.
\<close>

theorem second_Write_after_Close_waits:
  "fst (Write (snd (Close NewMultiReaderBuffer)) ''a'') = Returns (0, Some ErrClosedPipe) \<and>
   fst (Write (snd (Write (snd (Close NewMultiReaderBuffer)) ''a'')) ''b'') = Blocks"
  by (simp add: Write_def Close_def NewMultiReaderBuffer_def Let_def)


text \<open>
  C4 as stated, at a request of zero bytes: the read on a closed handle returns zero
  bytes and no error.
\<close>

theorem Read_on_closed_handle_zero_request:
  "Read (snd (Close NewMultiReaderBuffer)) \<lparr>offset = 0, rclosed = True\<rparr> 0 =
     (Returns ([], None), \<lparr>offset = 0, rclosed = True\<rparr>, snd (Close NewMultiReaderBuffer))"
  by (simp add: Read_def)


text \<open>
  C4, amended. A read on a handle closed by its consumer, whatever the buffer holds and
  whether it is open or closed, with the mutex free: a request of at least one byte
  fails at once with the closed-pipe error, a request of zero bytes returns zero bytes
  and no error, and in both cases the handle (its offset) and the buffer are unchanged.
\<close>

theorem Read_on_closed_handle:
  assumes "rclosed r" and "\<not> m_locked b"
  shows "Read b r maxBytes =
           (Returns ([], if maxBytes = 0 then None else Some ErrClosedPipe), r, b)"
  using assms by (simp add: Read_def)


theorem Read_on_closed_handle_witness:
  "Read \<lparr>m_locked = False, buf = ''hello'', closed = False\<rparr> \<lparr>offset = 2, rclosed = True\<rparr> 10 =
     (Returns ([], Some ErrClosedPipe), \<lparr>offset = 2, rclosed = True\<rparr>,
      \<lparr>m_locked = False, buf = ''hello'', closed = False\<rparr>)"
  using Read_on_closed_handle
    [of "\<lparr>offset = 2, rclosed = True\<rparr>" "\<lparr>m_locked = False, buf = ''hello'', closed = False\<rparr>" 10]
  by simp


text \<open>
  What a read of \<open>maxBytes > 0\<close> on an open handle does when the mutex is free and the
  offset is within the content: if \<open>content[offset:]\<close> is not empty it returns
  \<open>n = min(maxBytes, len(available))\<close> bytes, \<open>content[offset : offset+n]\<close>, with no
  error, and the offset advances by \<open>n\<close> and stays within the content; if it is empty
  and the buffer is closed it returns no bytes and \<open>io.EOF\<close>.
\<close>

lemma Read_with_free_mutex:
  assumes "\<not> m_locked b" and "\<not> rclosed r" and "0 < maxBytes" and "offset r \<le> length (buf b)"
  shows "(drop (offset r) (buf b) \<noteq> [] \<longrightarrow>
            (\<exists>n. n = min maxBytes (length (drop (offset r) (buf b))) \<and> 0 < n \<and>
                 Read b r maxBytes =
                   (Returns (take n (drop (offset r) (buf b)), None), r\<lparr>offset := offset r + n\<rparr>, b) \<and>
                 length (take n (drop (offset r) (buf b))) = n \<and>
                 offset r + n \<le> length (buf b))) \<and>
         (drop (offset r) (buf b) = [] \<and> closed b \<longrightarrow>
            Read b r maxBytes = (Returns ([], Some EOF), r, b) \<and> EOF \<noteq> ErrClosedPipe)"
  using assms by (auto simp: Read_def Let_def)

text \<open>
  C5. Every read of \<open>maxBytes > 0\<close> on an open handle returns the available bytes, or
  \<open>io.EOF\<close> on a closed and drained buffer. This fails once a write on the closed buffer
  has left the mutex held: after \<open>Write("hello")\<close>, \<open>Close()\<close> and the failing
  \<open>Write("x")\<close>, a read of three bytes on an open handle at offset 0, with five bytes
  available, waits for the mutex and does not return.
\<close>

theorem Read_after_failed_Write_waits:
  "Read (snd (Write (snd (Close (snd (Write NewMultiReaderBuffer ''hello'')))) ''x''))
        (NewReader NewMultiReaderBuffer) 3 =
     (Blocks, \<lparr>offset = 0, rclosed = False\<rparr>,
      \<lparr>m_locked = True, buf = ''hello'', closed = True\<rparr>)"
  by (simp add: Read_def Write_def Close_def NewReader_def NewMultiReaderBuffer_def Let_def)

section \<open>The shared buffer: histories\<close>

lemma step_Write_inv:
  assumes "world_inv w" and "\<not> closed (w_buf w)"
  shows "world_inv (step w (EvWrite p)) \<and>
         closed (w_buf (step w (EvWrite p))) = closed (w_buf w) \<and>
         w_reader (step w (EvWrite p)) = w_reader w \<and>
         buf (w_buf (step w (EvWrite p))) = buf (w_buf w) @ p"
  using assms by (auto simp: world_inv_def Write_open split: option.splits)

lemma step_Close_inv:
  assumes "world_inv w"
  shows "world_inv (step w EvClose) \<and> closed (w_buf (step w EvClose)) \<and>
         w_reader (step w EvClose) = w_reader w \<and>
         buf (w_buf (step w EvClose)) = buf (w_buf w)"
  using assms by (auto simp: world_inv_def Close_free split: option.splits)

lemma step_NewReader_inv:
  assumes "world_inv w" and "w_reader w = None"
  shows "world_inv (step w EvNewReader) \<and> w_buf (step w EvNewReader) = w_buf w \<and>
         w_reader (step w EvNewReader) \<noteq> None"
  using assms by (auto simp: world_inv_def NewReader_def)

lemma step_Read_inv:
  assumes "world_inv w" and "w_reader w \<noteq> None"
  shows "world_inv (step w (EvRead lenp)) \<and> w_buf (step w (EvRead lenp)) = w_buf w \<and>
         w_reader (step w (EvRead lenp)) \<noteq> None"
proof -
  from assms obtain r where r: "w_reader w = Some r" by auto
  with assms have h: "\<not> m_locked (w_buf w)" "\<not> rclosed r" "offset r \<le> length (buf (w_buf w))"
    "w_got w = take (offset r) (buf (w_buf w))"
    by (auto simp: world_inv_def)
  show ?thesis
  proof (cases "lenp = 0")
    case True
    with r assms show ?thesis by (simp add: Read_def world_inv_def)
  next
    case pos: False
    show ?thesis
    proof (cases "offset r < length (buf (w_buf w))")
      case True
      with pos h have "Read (w_buf w) r lenp =
         (Returns (take (min lenp (length (buf (w_buf w)) - offset r)) (drop (offset r) (buf (w_buf w))), None),
          r\<lparr>offset := offset r + min lenp (length (buf (w_buf w)) - offset r)\<rparr>, w_buf w)"
        by (simp add: Read_data)
      with r h True show ?thesis
        by (auto simp: world_inv_def take_add min_def)
    next
      case False
      with h have e: "offset r = length (buf (w_buf w))" by simp
      show ?thesis
      proof (cases "closed (w_buf w)")
        case True
        with pos h e r show ?thesis by (simp add: Read_eof world_inv_def)
      next
        case False
        with pos h e r show ?thesis by (simp add: Read_waits world_inv_def)
      qed
    qed
  qed
qed

lemma run_valid:
  "valid_from c a es \<Longrightarrow> c = closed (w_buf w) \<Longrightarrow> a = (w_reader w \<noteq> None) \<Longrightarrow> world_inv w \<Longrightarrow>
     world_inv (foldl step w es) \<and> closed (w_buf (foldl step w es)) \<and>
     w_reader (foldl step w es) \<noteq> None \<and>
     buf (w_buf (foldl step w es)) = buf (w_buf w) @ concat (writes_of es)"
proof (induction c a es arbitrary: w rule: valid_from.induct)
  case (1 c a)
  then show ?case by simp
next
  case (2 c a p es)
  from "2.prems" have nc: "\<not> closed (w_buf w)" and v: "valid_from c a es" by auto
  note st = step_Write_inv [OF "2.prems"(4) nc, of p]
  from "2.IH" [OF v, of "step w (EvWrite p)"] st "2.prems"(2,3)
  show ?case by (simp del: step.simps)
next
  case (3 c a es)
  from "3.prems" have v: "valid_from True a es" by auto
  note st = step_Close_inv [OF "3.prems"(4)]
  from "3.IH" [OF v, of "step w EvClose"] st "3.prems"(3)
  show ?case by (simp del: step.simps)
next
  case (4 c a es)
  from "4.prems" have nr: "w_reader w = None" and v: "valid_from c True es" by auto
  note st = step_NewReader_inv [OF "4.prems"(4) nr]
  from "4.IH" [OF v, of "step w EvNewReader"] st "4.prems"(2)
  show ?case by (simp del: step.simps)
next
  case (5 c a lenp es)
  from "5.prems" have hr: "w_reader w \<noteq> None" and v: "valid_from c a es" by auto
  note st = step_Read_inv [OF "5.prems"(4) hr, of lenp]
  from "5.IH" [OF v, of "step w (EvRead lenp)"] st "5.prems"(2,3) hr
  show ?case by (simp del: step.simps)
qed

lemma read_until_eof_closed:
  "closed b \<Longrightarrow> \<not> m_locked b \<Longrightarrow> \<not> rclosed r \<Longrightarrow> offset r \<le> length (buf b) \<Longrightarrow> 0 < k \<Longrightarrow>
     read_until_eof b r k acc = Some (acc @ drop (offset r) (buf b))"
proof (induction "length (buf b) - offset r" arbitrary: r acc rule: less_induct)
  case less
  show ?case
  proof (cases "offset r < length (buf b)")
    case True
    let ?n = "min k (length (buf b) - offset r)"
    let ?r' = "r\<lparr>offset := offset r + ?n\<rparr>"
    from less.prems True have rd: "Read b r k =
        (Returns (take ?n (drop (offset r) (buf b)), None), ?r', b)"
      by (simp add: Read_data)
    from less.prems True have "length (buf b) - offset ?r' < length (buf b) - offset r" by auto
    from less.hyps [OF this] less.prems True
    have "read_until_eof b ?r' k (acc @ take ?n (drop (offset r) (buf b))) =
            Some ((acc @ take ?n (drop (offset r) (buf b))) @ drop (offset ?r') (buf b))"
      by simp
    moreover have "take ?n (drop (offset r) (buf b)) @ drop (offset ?r') (buf b) = drop (offset r) (buf b)"
      by (simp add: add.commute [of "offset r"] flip: drop_drop)
    ultimately show ?thesis
      by (subst read_until_eof.simps) (simp add: rd)
  next
    case False
    with less.prems have e: "offset r = length (buf b)" by simp
    with less.prems have "Read b r k = (Returns ([], Some EOF), r, b)" by (simp add: Read_eof)
    with e show ?thesis by (subst read_until_eof.simps) simp
  qed
qed


text \<open>
  C1. For every valid history (writes, then the close, one reader handle created
  anywhere, reads of any size on it anywhere after its creation) the bytes the reads
  returned, followed by what reading until \<open>io.EOF\<close> with requests of \<open>k > 0\<close> bytes
  returns, are exactly the concatenation of the writes in order; and that final loop
  does end.
\<close>

theorem every_reader_sees_all_writes:
  assumes "valid_history es" and "0 < k"
  shows "read_all_after es k = Some (concat (writes_of es))"
proof -
  have i: "world_inv init_world"
    by (simp add: world_inv_def init_world_def NewMultiReaderBuffer_def)
  have v: "valid_from False False es"
    using assms(1) by (simp add: valid_history_def)
  have "False = closed (w_buf init_world)" "False = (w_reader init_world \<noteq> None)"
    by (simp_all add: init_world_def NewMultiReaderBuffer_def)
  from run_valid [OF v this i] obtain r where
    r: "w_reader (run es) = Some r" and inv: "world_inv (run es)" and c: "closed (w_buf (run es))"
    and b: "buf (w_buf (run es)) = concat (writes_of es)"
    by (auto simp: run_def init_world_def NewMultiReaderBuffer_def)
  from inv r have h: "\<not> m_locked (w_buf (run es))" "\<not> rclosed r"
    "offset r \<le> length (buf (w_buf (run es)))" "w_got (run es) = take (offset r) (buf (w_buf (run es)))"
    by (auto simp: world_inv_def)
  from read_until_eof_closed [OF c h(1) h(2) h(3) assms(2), of "w_got (run es)"] h(4) b r
  show ?thesis by (simp add: read_all_after_def Let_def)
qed


theorem every_reader_sees_all_writes_witness:
  "valid_history [EvWrite ''he'', EvNewReader, EvRead 1, EvRead 5, EvWrite ''llo'', EvClose, EvRead 2] \<and>
   read_all_after [EvWrite ''he'', EvNewReader, EvRead 1, EvRead 5, EvWrite ''llo'', EvClose, EvRead 2] 3
     = Some ''hello''"
  using every_reader_sees_all_writes
    [of "[EvWrite ''he'', EvNewReader, EvRead 1, EvRead 5, EvWrite ''llo'', EvClose, EvRead 2]" 3]
  by (simp add: valid_history_def)



section \<open>The cancellable wrapper\<close>

lemma cancel_case_handle:
  "\<not> m_locked b \<Longrightarrow>
     cancel_case e pending (Handle b r) lenp cr =
       (Returns ([], Some e), cr\<lparr>reader := Handle b (r\<lparr>rclosed := True\<rparr>)\<rparr>)"
  by (simp add: cancel_case_def ReaderClose_free Read_def)

lemma Read_buffer_unchanged:
  "\<not> m_locked b \<Longrightarrow> offset r \<le> length (buf b) \<Longrightarrow> Read b r lenp = (res, r', b') \<Longrightarrow> b' = b"
  by (auto simp: Read_def Let_def split: if_splits)


text \<open>
  C7 as stated, at a wrapper whose context is cancelled: the first read takes the
  cancellation case and closes the handle; the next read through the same wrapper
  takes the cancellation case again and returns the cancellation error, not the
  closed-pipe error of the handle.
\<close>

theorem cancelled_wrapper_later_read:
  "fst (cr_Read (\<lambda>c. Some Canceled) (\<lambda>i. CancelFirst)
          \<lparr>reader = Handle \<lparr>m_locked = False, buf = ''hello'', closed = False\<rparr>
                            \<lparr>offset = 0, rclosed = False\<rparr>, ctx = 0, nselect = 0\<rparr> 10)
     = Returns ([], Some Canceled) \<and>
   fst (cr_Read (\<lambda>c. Some Canceled) (\<lambda>i. CancelFirst)
          (snd (cr_Read (\<lambda>c. Some Canceled) (\<lambda>i. CancelFirst)
             \<lparr>reader = Handle \<lparr>m_locked = False, buf = ''hello'', closed = False\<rparr>
                               \<lparr>offset = 0, rclosed = False\<rparr>, ctx = 0, nselect = 0\<rparr> 10)) 10)
     = Returns ([], Some Canceled)"
  by (simp add: cr_Read_def cancel_case_def Read_def ReaderClose_def Let_def)


text \<open>
  C7, amended. For a wrapper over a reader handle whose buffer's mutex is free and
  whose offset is within the content: when the underlying read returns and the select
  receives its result (the context is not done, or the run is \<open>ReadFirst\<close>), that result
  is returned unchanged; when the context is done and the select takes the
  cancellation case (the read's result is not received, or the read waits), the
  wrapper returns no bytes and the context's error and leaves the handle closed, its
  offset still within the content, so that every later read of at least one byte on
  the handle itself fails with the closed-pipe error, and every later read of at least
  one byte through the same wrapper, the context still done, returns the closed-pipe
  error when the select receives the read's result and the cancellation error again
  otherwise.
\<close>

theorem cancellableReader_Read_race:
  assumes "\<not> m_locked b" and "reader cr = Handle b r" and "offset r \<le> length (buf b)"
  shows "(\<forall>res r' b'. Read b r lenp = (Returns res, r', b') \<and>
             (env (ctx cr) = None \<or> sel (nselect cr) = ReadFirst) \<longrightarrow>
             cr_Read env sel cr lenp =
               (Returns res, cr\<lparr>nselect := nselect cr + 1, reader := Handle b' r'\<rparr>)) \<and>
         (\<forall>e. env (ctx cr) = Some e \<and>
             (sel (nselect cr) \<noteq> ReadFirst \<or> fst (Read b r lenp) = Blocks) \<longrightarrow>
             (\<exists>r'. cr_Read env sel cr lenp =
                     (Returns ([], Some e), cr\<lparr>nselect := nselect cr + 1, reader := Handle b r'\<rparr>) \<and>
                   rclosed r' \<and> offset r' \<le> length (buf b) \<and>
                   (\<forall>n. 0 < n \<longrightarrow>
                      fst (Read b r' n) = Returns ([], Some ErrClosedPipe) \<and>
                      fst (cr_Read env sel
                             (cr\<lparr>nselect := nselect cr + 1, reader := Handle b r'\<rparr>) n) =
                        (if sel (nselect cr + 1) = ReadFirst
                         then Returns ([], Some ErrClosedPipe) else Returns ([], Some e))))) \<and>
         (\<forall>e. rclosed r \<and> env (ctx cr) = Some e \<and> 0 < lenp \<longrightarrow>
             fst (cr_Read env sel cr lenp) =
               (if sel (nselect cr) = ReadFirst then Returns ([], Some ErrClosedPipe)
                else Returns ([], Some e)))"
proof (intro conjI allI impI)
  fix res r' b'
  assume h: "Read b r lenp = (Returns res, r', b') \<and>
             (env (ctx cr) = None \<or> sel (nselect cr) = ReadFirst)"
  then show "cr_Read env sel cr lenp =
               (Returns res, cr\<lparr>nselect := nselect cr + 1, reader := Handle b' r'\<rparr>)"
    using assms by (auto simp: cr_Read_def Let_def split: option.splits)
next
  fix e
  assume h: "env (ctx cr) = Some e \<and>
             (sel (nselect cr) \<noteq> ReadFirst \<or> fst (Read b r lenp) = Blocks)"
  obtain res r1 b1 where rd: "Read b r lenp = (res, r1, b1)"
    by (cases "Read b r lenp") auto
  with assms have b1: "b1 = b" using Read_buffer_unchanged by blast
  have np: "res \<noteq> Panics"
    using rd assms by (auto simp: Read_def Let_def split: if_splits)
  have off: "offset r1 \<le> length (buf b)"
    using rd assms by (auto simp: Read_def Let_def split: if_splits)
  have closed_read: "\<And>r2 n. 0 < n \<Longrightarrow>
      fst (Read b (r2\<lparr>rclosed := True\<rparr>) n) = Returns ([], Some ErrClosedPipe)"
    using assms(1) by (simp add: Read_closed_handle)
  have later: "\<And>r2 n. 0 < n \<Longrightarrow>
      fst (cr_Read env sel
             (cr\<lparr>nselect := nselect cr + 1, reader := Handle b (r2\<lparr>rclosed := True\<rparr>)\<rparr>) n) =
        (if sel (nselect cr + 1) = ReadFirst
         then Returns ([], Some ErrClosedPipe) else Returns ([], Some e))"
  proof -
    fix r2 :: multiBufferReader and n :: nat
    assume n: "0 < n"
    with assms(1) have "src_Read (Handle b (r2\<lparr>rclosed := True\<rparr>)) n =
        (Returns ([], Some ErrClosedPipe), Handle b (r2\<lparr>rclosed := True\<rparr>))"
      by (simp add: Read_closed_handle)
    with h assms(1) show "fst (cr_Read env sel
             (cr\<lparr>nselect := nselect cr + 1, reader := Handle b (r2\<lparr>rclosed := True\<rparr>)\<rparr>) n) =
        (if sel (nselect cr + 1) = ReadFirst
         then Returns ([], Some ErrClosedPipe) else Returns ([], Some e))"
      by (cases "sel (nselect cr + 1)") (simp_all add: cr_Read_def cancel_case_handle Let_def)
  qed
  show "\<exists>r'. cr_Read env sel cr lenp =
                 (Returns ([], Some e), cr\<lparr>nselect := nselect cr + 1, reader := Handle b r'\<rparr>) \<and>
               rclosed r' \<and> offset r' \<le> length (buf b) \<and>
               (\<forall>n. 0 < n \<longrightarrow>
                  fst (Read b r' n) = Returns ([], Some ErrClosedPipe) \<and>
                  fst (cr_Read env sel
                         (cr\<lparr>nselect := nselect cr + 1, reader := Handle b r'\<rparr>) n) =
                    (if sel (nselect cr + 1) = ReadFirst
                     then Returns ([], Some ErrClosedPipe) else Returns ([], Some e)))"
  proof (cases res)
    case (Returns x)
    with h rd have ns: "sel (nselect cr) \<noteq> ReadFirst" by auto
    show ?thesis
    proof (cases "sel (nselect cr)")
      case ReadFirst
      with ns show ?thesis by simp
    next
      case CancelFirst
      with h rd Returns assms b1 closed_read later off show ?thesis
        by (intro exI [of _ "r\<lparr>rclosed := True\<rparr>"])
           (simp add: cr_Read_def cancel_case_handle Let_def)
    next
      case CancelAfterRead
      with h rd Returns assms b1 closed_read later off show ?thesis
        by (intro exI [of _ "r1\<lparr>rclosed := True\<rparr>"])
           (simp add: cr_Read_def cancel_case_handle Let_def)
    qed
  next
    case Blocks
    with h rd assms b1 closed_read later off show ?thesis
      by (intro exI [of _ "r\<lparr>rclosed := True\<rparr>"])
         (simp add: cr_Read_def cancel_case_handle Let_def)
  next
    case Panics
    with np show ?thesis by simp
  qed
next
  fix e
  assume h: "rclosed r \<and> env (ctx cr) = Some e \<and> 0 < lenp"
  with assms have "src_Read (reader cr) lenp = (Returns ([], Some ErrClosedPipe), Handle b r)"
    by (simp add: Read_closed_handle)
  with h assms show "fst (cr_Read env sel cr lenp) =
               (if sel (nselect cr) = ReadFirst then Returns ([], Some ErrClosedPipe)
                else Returns ([], Some e))"
    by (cases "sel (nselect cr)") (simp_all add: cr_Read_def cancel_case_handle Let_def)
qed



theorem cancellableReader_Read_race_witness:
  "fst (cr_Read (\<lambda>c. None) (\<lambda>i. ReadFirst)
      \<lparr>reader = Handle \<lparr>m_locked = False, buf = ''hello'', closed = False\<rparr>
                        \<lparr>offset = 0, rclosed = False\<rparr>, ctx = 0, nselect = 0\<rparr> 3)
     = Returns (''hel'', None) \<and>
   fst (cr_Read (\<lambda>c. Some DeadlineExceeded) (\<lambda>i. CancelFirst)
      \<lparr>reader = Handle \<lparr>m_locked = False, buf = ''hello'', closed = False\<rparr>
                        \<lparr>offset = 5, rclosed = False\<rparr>, ctx = 0, nselect = 0\<rparr> 3)
     = Returns ([], Some DeadlineExceeded) \<and>
   fst (cr_Read (\<lambda>c. Some DeadlineExceeded) (\<lambda>i. ReadFirst)
      \<lparr>reader = Handle \<lparr>m_locked = False, buf = ''hello'', closed = False\<rparr>
                        \<lparr>offset = 5, rclosed = True\<rparr>, ctx = 0, nselect = 1\<rparr> 3)
     = Returns ([], Some ErrClosedPipe)"
  using
    cancellableReader_Read_race
      [of "\<lparr>m_locked = False, buf = ''hello'', closed = False\<rparr>"
          "\<lparr>reader = Handle \<lparr>m_locked = False, buf = ''hello'', closed = False\<rparr>
                        \<lparr>offset = 0, rclosed = False\<rparr>, ctx = 0, nselect = 0\<rparr>"
          "\<lparr>offset = 0, rclosed = False\<rparr>" 3 "\<lambda>c. None" "\<lambda>i. ReadFirst"]
    cancellableReader_Read_race
      [of "\<lparr>m_locked = False, buf = ''hello'', closed = False\<rparr>"
          "\<lparr>reader = Handle \<lparr>m_locked = False, buf = ''hello'', closed = False\<rparr>
                        \<lparr>offset = 5, rclosed = False\<rparr>, ctx = 0, nselect = 0\<rparr>"
          "\<lparr>offset = 5, rclosed = False\<rparr>" 3 "\<lambda>c. Some DeadlineExceeded" "\<lambda>i. CancelFirst"]
    cancellableReader_Read_race
      [of "\<lparr>m_locked = False, buf = ''hello'', closed = False\<rparr>"
          "\<lparr>reader = Handle \<lparr>m_locked = False, buf = ''hello'', closed = False\<rparr>
                        \<lparr>offset = 5, rclosed = True\<rparr>, ctx = 0, nselect = 1\<rparr>"
          "\<lparr>offset = 5, rclosed = True\<rparr>" 3 "\<lambda>c. Some DeadlineExceeded" "\<lambda>i. ReadFirst"]
  by (auto simp: Read_def Let_def)



section \<open>The tokenizer and the search, step by step\<close>

lemma IndexByte_Some:
  "IndexByte xs c = Some i \<Longrightarrow> i < length xs \<and> xs ! i = c \<and> c \<notin> set (take i xs)"
proof (induction xs arbitrary: i)
  case Nil
  then show ?case by simp
next
  case (Cons x xs)
  show ?case
  proof (cases "x = c")
    case True
    with Cons.prems show ?thesis by simp
  next
    case False
    with Cons.prems obtain j where j: "IndexByte xs c = Some j" "i = Suc j" by auto
    from Cons.IH [OF j(1)] j(2) False show ?thesis by auto
  qed
qed

lemma IndexByte_None: "IndexByte xs c = None \<longleftrightarrow> c \<notin> set xs"
  by (induction xs) auto

lemma IndexByte_append_Some:
  "IndexByte xs c = Some i \<Longrightarrow> IndexByte (xs @ ys) c = Some i"
  by (induction xs arbitrary: i) (auto split: if_splits)

lemma IndexByte_append_None:
  "IndexByte xs c = None \<Longrightarrow>
     IndexByte (xs @ ys) c =
       (case IndexByte ys c of None \<Rightarrow> None | Some j \<Rightarrow> Some (length xs + j))"
  by (induction xs) (auto split: if_splits option.splits)

lemma try_token_line:
  assumes "IndexByte (s_pending s) newline = Some i"
  shows "try_token s =
           Token (s\<lparr>s_start := s_start s + (i + 1), s_pending := drop (i + 1) (s_pending s),
                    s_token := dropCR (take i (s_pending s))\<rparr>)"
proof -
  from IndexByte_Some [OF assms] have "i < length (s_pending s)" by simp
  with assms show ?thesis
    by (auto simp: try_token_def ScanLines_def s_end_def Let_def)
qed

lemma try_token_rest:
  assumes "IndexByte (s_pending s) newline = None" and "s_pending s \<noteq> []" and "s_err s \<noteq> None"
  shows "try_token s =
           Token (s\<lparr>s_start := s_start s + length (s_pending s), s_pending := [],
                    s_token := dropCR (s_pending s)\<rparr>)"
  using assms by (auto simp: try_token_def ScanLines_def s_end_def Let_def)

lemma try_token_end:
  assumes "s_pending s = []" and "s_err s \<noteq> None"
  shows "try_token s = NoToken (s\<lparr>s_start := s_start s + 0, s_pending := [], s_token := []\<rparr>)"
  using assms by (auto simp: try_token_def ScanLines_def s_end_def Let_def)

lemma try_token_more:
  assumes "IndexByte (s_pending s) newline = None" and "s_err s = None"
  shows "try_token s =
           NoToken (if s_pending s = [] then s
                    else s\<lparr>s_start := s_start s + 0, s_pending := drop 0 (s_pending s),
                           s_token := []\<rparr>)"
  using assms by (auto simp: try_token_def ScanLines_def s_end_def Let_def)

lemma Scan_line:
  assumes "IndexByte (s_pending s) newline = Some i"
  shows "Scan env sel cr s =
           (Returns (True, s\<lparr>s_start := s_start s + (i + 1),
                              s_pending := drop (i + 1) (s_pending s),
                              s_token := dropCR (take i (s_pending s))\<rparr>), cr)"
  by (subst Scan.simps) (simp add: try_token_line [OF assms])

lemma Scan_rest:
  assumes "IndexByte (s_pending s) newline = None" and "s_pending s \<noteq> []" and "s_err s \<noteq> None"
  shows "Scan env sel cr s =
           (Returns (True, s\<lparr>s_start := s_start s + length (s_pending s), s_pending := [],
                              s_token := dropCR (s_pending s)\<rparr>), cr)"
  by (subst Scan.simps) (simp add: try_token_rest [OF assms])

lemma Scan_end:
  assumes "s_pending s = []" and "s_err s \<noteq> None"
  shows "Scan env sel cr s =
           (Returns (False, s\<lparr>s_start := 0, s_pending := [], s_token := []\<rparr>), cr)"
  using assms by (subst Scan.simps) (simp add: try_token_end [OF assms])

lemma Scan_too_long:
  assumes "IndexByte (s_pending s) newline = None" and "s_err s = None"
    and "grow (shift (after_no_token s)) = None"
  shows "Scan env sel cr s =
           (Returns (False, setErr (shift (after_no_token s)) ErrTooLong), cr)"
  using assms by (subst Scan.simps) (auto simp: try_token_more after_no_token_def)

lemma Scan_more:
  assumes "IndexByte (s_pending s) newline = None" and "s_err s = None"
    and "grow (shift (after_no_token s)) = Some s2"
    and "read_loop env sel cr s2 0 = (Returns s3, cr')"
  shows "Scan env sel cr s = Scan env sel cr' s3"
  using assms by (subst Scan.simps) (auto simp: try_token_more after_no_token_def)

lemma Scan_more_stuck:
  assumes "IndexByte (s_pending s) newline = None" and "s_err s = None"
    and "grow (shift (after_no_token s)) = Some s2"
    and "read_loop env sel cr s2 0 = (res, cr')" and "res = Blocks \<or> res = Panics"
  shows "Scan env sel cr s = (if res = Blocks then Blocks else Panics, cr')"
  using assms by (subst Scan.simps) (auto simp: try_token_more after_no_token_def)

lemma read_loop_data:
  assumes "s_end s \<le> s_buf_len s"
    and "cr_Read env sel cr (s_buf_len s - s_end s) = (Returns (d, None), cr')"
    and "d \<noteq> []" and "length d \<le> s_buf_len s - s_end s"
  shows "read_loop env sel cr s loop = (Returns (s\<lparr>s_pending := s_pending s @ d\<rparr>), cr')"
  using assms by (subst read_loop.simps) (simp add: Let_def)

lemma read_loop_error:
  assumes "s_end s \<le> s_buf_len s"
    and "cr_Read env sel cr (s_buf_len s - s_end s) = (Returns (d, Some e), cr')"
    and "length d \<le> s_buf_len s - s_end s"
  shows "read_loop env sel cr s loop = (Returns (setErr (s\<lparr>s_pending := s_pending s @ d\<rparr>) e), cr')"
  using assms by (subst read_loop.simps) (simp add: Let_def)

lemma cr_Read_live:
  assumes "env (ctx cr) = None"
  shows "cr_Read env sel cr lenp =
           (fst (src_Read (reader cr) lenp),
            cr\<lparr>nselect := nselect cr + 1, reader := snd (src_Read (reader cr) lenp)\<rparr>)"
  using assms by (cases "src_Read (reader cr) lenp"; cases "fst (src_Read (reader cr) lenp)")
    (auto simp: cr_Read_def Let_def)

lemma waitForKeyword_found:
  assumes "Scan env sel cr s = (Returns (True, s1), cr1)" and "Contains (s_token s1) substr"
  shows "waitForKeyword env sel c cr s substr = Some (Returns None, s1, cr1)"
  using assms by (subst waitForKeyword.simps) (simp add: Let_def)

lemma waitForKeyword_next:
  assumes "Scan env sel cr s = (Returns (True, s1), cr1)" and "\<not> Contains (s_token s1) substr"
    and "env c = None"
  shows "waitForKeyword env sel c cr s substr = waitForKeyword env sel c cr1 s1 substr"
  using assms by (subst waitForKeyword.simps) (simp add: Let_def)

lemma waitForKeyword_end:
  assumes "Scan env sel cr s = (Returns (False, s1), cr1)"
  shows "waitForKeyword env sel c cr s substr =
           Some (Returns (Some (case Scanner_Err s1 of
                                  Some e \<Rightarrow> e
                                | None \<Rightarrow> Wrapf KeywordNotFound substr)), s1, cr1)"
  using assms by (subst waitForKeyword.simps) (simp split: option.splits)

lemma Scan_eval:
  "Scan env sel cr s =
     (case IndexByte (s_pending s) newline of
        Some i \<Rightarrow> (Returns (True, s\<lparr>s_start := s_start s + (i + 1),
                              s_pending := drop (i + 1) (s_pending s),
                              s_token := dropCR (take i (s_pending s))\<rparr>), cr)
      | None \<Rightarrow>
          (if s_err s \<noteq> None then
             (if s_pending s = [] then (Returns (False, s\<lparr>s_start := 0, s_pending := [], s_token := []\<rparr>), cr)
              else (Returns (True, s\<lparr>s_start := s_start s + length (s_pending s), s_pending := [],
                              s_token := dropCR (s_pending s)\<rparr>), cr))
           else (case grow (shift (after_no_token s)) of
                   None \<Rightarrow> (Returns (False, setErr (shift (after_no_token s)) ErrTooLong), cr)
                 | Some s2 \<Rightarrow>
                     (case read_loop env sel cr s2 0 of
                        (Returns s3, cr') \<Rightarrow> Scan env sel cr' s3
                      | (Blocks, cr') \<Rightarrow> (Blocks, cr')
                      | (Panics, cr') \<Rightarrow> (Panics, cr')))))"
proof (cases "IndexByte (s_pending s) newline")
  case (Some i)
  then show ?thesis by (simp add: Scan_line)
next
  case None
  show ?thesis
  proof (cases "s_err s = None")
    case True
    show ?thesis
    proof (cases "grow (shift (after_no_token s))")
      case n: None
      with None True show ?thesis by (simp add: Scan_too_long)
    next
      case (Some s2)
      obtain res cr' where rl: "read_loop env sel cr s2 0 = (res, cr')"
        by (cases "read_loop env sel cr s2 0") auto
      show ?thesis
      proof (cases res)
        case (Returns s3)
        with None True Some rl show ?thesis by (simp add: Scan_more)
      next
        case Blocks
        with None True Some rl show ?thesis by (simp add: Scan_more_stuck)
      next
        case Panics
        with None True Some rl show ?thesis by (simp add: Scan_more_stuck)
      qed
    qed
  next
    case False
    with None show ?thesis by (cases "s_pending s = []") (simp_all add: Scan_end Scan_rest)
  qed
qed



lemmas scan_eval_simps =
  Scan_eval NewScanner_def after_no_token_def shift_def grow_def s_end_def maxTokenSize_def
  maxInt_def startBufSize_def Let_def read_loop.simps cr_Read_live newline_def dropCR_def
  carriage_return_def Scanner_Err_def setErr_def


section \<open>Searches on a StreamScanner\<close>

text \<open>
  The repository's test: over the lines one, two, three, four, five, all searches with a
  context that is never done and whatever the selects do, the searches for "one",
  "two", "four" and "five" on one \<open>StreamScanner\<close> succeed in this order, and the final
  search for "three" fails with the keyword-not-found error.
\<close>

lemma StreamScanner_search_sequence:
  "map_option fst
     (StreamScanner_searches (\<lambda>c. None) sel
        (NewStreamScanner
           (FakeCloser (''one'' @ [newline] @ ''two'' @ [newline] @ ''three'' @ [newline] @
                        ''four'' @ [newline] @ ''five'')))
        [(0, ''one''), (0, ''two''), (0, ''four''), (0, ''five''), (0, ''three'')]) =
   Some [Returns None, Returns None, Returns None, Returns None,
         Returns (Some (Wrapf KeywordNotFound ''three''))]"
  by (simp add: StreamScanner_WaitForKeyword_def NewStreamScanner_def waitForKeyword.simps
        scan_eval_simps)


text \<open>
  The search of \<open>AccumulatedOutput\<close> does check the context before anything else.
\<close>

lemma AccumulatedOutput_search_cancelled:
  "env c = Some e \<Longrightarrow>
     AccumulatedOutput_WaitForKeyword env sel s c substr = Some (Returns (Some e), s)"
  by (simp add: AccumulatedOutput_WaitForKeyword_def)


text \<open>
  C3. A search on a \<open>StreamScanner\<close> whose context is already done fails at once with
  the cancellation error. \<open>StreamScanner.WaitForKeyword\<close> has no such check: after a
  first search (context 0, not done) has found "one" and left the line "two" in the
  tokenizer's buffer, a search for "two" with a cancelled context (context 1) returns
  nil, whatever the selects do.
\<close>

theorem StreamScanner_search_with_cancelled_context:
  "map_option fst
     (StreamScanner_searches (\<lambda>c. if c = 1 then Some Canceled else None) sel
        (NewStreamScanner (FakeCloser (''one'' @ [newline] @ ''two'' @ [newline])))
        [(0, ''one''), (1, ''two'')]) =
   Some [Returns None, Returns None]"
  by (simp add: StreamScanner_WaitForKeyword_def NewStreamScanner_def waitForKeyword.simps
        scan_eval_simps)



section \<open>The search on a stream that ends\<close>





section \<open>The tokenizer on a stream that will not grow\<close>

lemma src_Read_finished:
  assumes "finished src" and "0 < lenp"
  shows "fst (src_Read src lenp) =
           Returns (take lenp (remaining src), if remaining src = [] then Some EOF else None)"
    and "finished (snd (src_Read src lenp))"
    and "remaining (snd (src_Read src lenp)) = drop lenp (remaining src)"
    and "source_buffer (snd (src_Read src lenp)) b0 = source_buffer src b0"
proof -
  show "fst (src_Read src lenp) =
           Returns (take lenp (remaining src), if remaining src = [] then Some EOF else None)"
    using assms by (cases src) (auto simp: Read_def Let_def min_def)
  show "finished (snd (src_Read src lenp))"
    using assms by (cases src) (auto simp: Read_def Let_def min_def)
  show "remaining (snd (src_Read src lenp)) = drop lenp (remaining src)"
    using assms by (cases src) (auto simp: Read_def Let_def min_def add.commute)
  show "source_buffer (snd (src_Read src lenp)) b0 = source_buffer src b0"
    using assms by (cases src) (auto simp: Read_def Let_def min_def)
qed

lemma grow_shift_room:
  assumes "s_end s \<le> s_buf_len s" and "s_buf_len s \<le> maxTokenSize"
    and "grow (shift s) = Some s2"
  shows "s_pending s2 = s_pending s \<and> s_err s2 = s_err s \<and> s_end s2 < s_buf_len s2 \<and>
         s_buf_len s2 \<le> maxTokenSize"
  using assms
  by (auto simp: grow_def shift_def s_end_def Let_def maxTokenSize_def startBufSize_def
           split: if_splits)

lemma grow_shift_full:
  assumes "s_end s \<le> s_buf_len s" and "s_buf_len s \<le> maxTokenSize"
    and "grow (shift s) = None"
  shows "length (s_pending s) = maxTokenSize"
  using assms
  by (auto simp: grow_def shift_def s_end_def Let_def maxTokenSize_def maxInt_def
           split: if_splits)

lemma after_no_token_fields [simp]:
  "s_pending (after_no_token s) = s_pending s"
  "s_err (after_no_token s) = s_err s"
  "s_buf_len (after_no_token s) = s_buf_len s"
  "s_start (after_no_token s) = s_start s"
  "s_end (after_no_token s) = s_end s"
  by (auto simp: after_no_token_def s_end_def)


lemma shift_fields [simp]:
  "s_pending (shift s) = s_pending s"
  "s_err (shift s) = s_err s"
  "s_buf_len (shift s) = s_buf_len s"
  by (auto simp: shift_def)

lemma setErr_first: "s_err s = None \<Longrightarrow> s_err (setErr s e) = Some e"
  by (simp add: setErr_def)

lemma Scan_finished:
  assumes "scan_inv s" and "finished (reader cr)" and "env (ctx cr) = None"
  shows "\<exists>ok s' cr'. Scan env sel cr s = (Returns (ok, s'), cr') \<and> ctx cr' = ctx cr \<and>
           finished (reader cr') \<and>
           source_buffer (reader cr') b0 = source_buffer (reader cr) b0 \<and>
           scan_result (s_pending s @ remaining (reader cr)) ok s' (remaining (reader cr'))"
  using assms
proof (induction "length (remaining (reader cr))" arbitrary: cr s rule: less_induct)
  case less
  let ?rem = "remaining (reader cr)"
  let ?text = "s_pending s @ ?rem"
  from less.prems(1) have inv: "s_end s \<le> s_buf_len s" "s_buf_len s \<le> maxTokenSize" "s_err s = None"
    by (simp_all add: scan_inv_def)
  show ?case
  proof (cases "IndexByte (s_pending s) newline")
    case (Some j)
    let ?s' = "s\<lparr>s_start := s_start s + (j + 1), s_pending := drop (j + 1) (s_pending s),
                  s_token := dropCR (take j (s_pending s))\<rparr>"
    from IndexByte_Some [OF Some] have j: "j < length (s_pending s)" by simp
    with inv have jm: "j < maxTokenSize" by (simp add: s_end_def)
    have ix: "IndexByte ?text newline = Some j" by (rule IndexByte_append_Some [OF Some])
    have "scan_inv ?s'" using inv j by (simp add: scan_inv_def s_end_def)
    with ix jm j have "scan_result ?text True ?s' ?rem"
      by (simp add: scan_result_def)
    with Scan_line [OF Some, of env sel cr] less.prems show ?thesis by blast
  next
    case None
    let ?sh = "shift (after_no_token s)"
    have inv1: "s_end (after_no_token s) \<le> s_buf_len (after_no_token s)"
      "s_buf_len (after_no_token s) \<le> maxTokenSize"
      using inv by simp_all
    show ?thesis
    proof (cases "grow ?sh")
      case full: None
      from grow_shift_full [OF inv1 full] have len: "length (s_pending s) = maxTokenSize" by simp
      have tl: "s_err (setErr ?sh ErrTooLong) = Some ErrTooLong"
        using inv(3) by (simp add: setErr_first)
      have "scan_result ?text False (setErr ?sh ErrTooLong) ?rem"
      proof (cases "IndexByte ?rem newline")
        case n: None
        with None have "IndexByte ?text newline = None" by (simp add: IndexByte_append_None)
        moreover from len have "s_pending s \<noteq> []" by (auto simp: maxTokenSize_def)
        ultimately show ?thesis using len tl by (simp add: scan_result_def)
      next
        case (Some k)
        with None have "IndexByte ?text newline = Some (length (s_pending s) + k)"
          by (simp add: IndexByte_append_None)
        with len tl show ?thesis by (simp add: scan_result_def)
      qed
      with Scan_too_long [OF None inv(3) full, of env sel cr] less.prems show ?thesis by blast
    next
      case (Some s2)
      from grow_shift_room [OF inv1 Some]
      have s2: "s_pending s2 = s_pending s" "s_err s2 = None" "s_end s2 < s_buf_len s2"
        "s_buf_len s2 \<le> maxTokenSize"
        using inv by simp_all
      let ?room = "s_buf_len s2 - s_end s2"
      from s2 have room: "0 < ?room" "s_end s2 \<le> s_buf_len s2" by simp_all
      let ?cr' = "cr\<lparr>nselect := nselect cr + 1, reader := snd (src_Read (reader cr) ?room)\<rparr>"
      note rd = src_Read_finished [OF less.prems(2) room(1)]
      have crd: "cr_Read env sel cr ?room =
          (Returns (take ?room ?rem, if ?rem = [] then Some EOF else None), ?cr')"
        using cr_Read_live [of env cr sel ?room] less.prems(3) rd(1) by simp
      have cr'_facts: "ctx ?cr' = ctx cr" "finished (reader ?cr')"
        "source_buffer (reader ?cr') b0 = source_buffer (reader cr) b0"
        "remaining (reader ?cr') = drop ?room ?rem"
        using rd by simp_all
      show ?thesis
      proof (cases "?rem = []")
        case True
        let ?s3 = "setErr (s2\<lparr>s_pending := s_pending s2 @ []\<rparr>) EOF"
        from crd True have "cr_Read env sel cr ?room = (Returns ([], Some EOF), ?cr')" by simp
        from read_loop_error [OF room(2) this, of 0]
        have rl: "read_loop env sel cr s2 0 = (Returns ?s3, ?cr')" by simp
        have s3: "s_pending ?s3 = s_pending s" "s_err ?s3 = Some EOF"
          using s2 by (simp_all add: setErr_def)
        have sc: "Scan env sel cr s = Scan env sel ?cr' ?s3"
          by (rule Scan_more [OF None inv(3) Some rl])
        have lt: "length (s_pending s) < maxTokenSize"
          using s2 by (simp add: s_end_def)
        have ix: "IndexByte ?text newline = None" using None True by simp
        show ?thesis
        proof (cases "s_pending s = []")
          case e: True
          with s3 have "Scan env sel ?cr' ?s3 =
              (Returns (False, ?s3\<lparr>s_start := 0, s_pending := [], s_token := []\<rparr>), ?cr')"
            by (intro Scan_end) simp_all
          moreover have "scan_result ?text False (?s3\<lparr>s_start := 0, s_pending := [], s_token := []\<rparr>)
               (remaining (reader ?cr'))"
            using e True ix s3 by (simp add: scan_result_def)
          ultimately show ?thesis using sc cr'_facts by auto
        next
          case ne: False
          let ?s4 = "?s3\<lparr>s_start := s_start ?s3 + length (s_pending ?s3), s_pending := [],
                         s_token := dropCR (s_pending ?s3)\<rparr>"
          from s3 None ne have "Scan env sel ?cr' ?s3 = (Returns (True, ?s4), ?cr')"
            by (intro Scan_rest) simp_all
          moreover have "scan_result ?text True ?s4 (remaining (reader ?cr'))"
            using ne True ix s3 lt cr'_facts(4) by (simp add: scan_result_def)
          ultimately show ?thesis using sc cr'_facts by auto
        qed
      next
        case False
        let ?d = "take ?room ?rem"
        let ?s3 = "s2\<lparr>s_pending := s_pending s2 @ ?d\<rparr>"
        from crd False have c: "cr_Read env sel cr ?room = (Returns (?d, None), ?cr')" by simp
        from False room have dne: "?d \<noteq> []" by simp
        have dl: "length ?d \<le> ?room" by simp
        from read_loop_data [OF room(2) c dne dl, of 0]
        have rl: "read_loop env sel cr s2 0 = (Returns ?s3, ?cr')" .
        have sc: "Scan env sel cr s = Scan env sel ?cr' ?s3"
          by (rule Scan_more [OF None inv(3) Some rl])
        have inv3: "scan_inv ?s3"
          using s2 room by (simp add: scan_inv_def s_end_def)
        have "0 < length ?rem" using False by simp
        with room(1) have "length ?rem - ?room < length ?rem" by arith
        then have shorter: "length (remaining (reader ?cr')) < length ?rem"
          using cr'_facts(4) by simp
        have live: "env (ctx ?cr') = None" using less.prems(3) by simp
        from less.hyps [OF shorter inv3 cr'_facts(2) live]
        obtain ok s' cr'' where
          r: "Scan env sel ?cr' ?s3 = (Returns (ok, s'), cr'')" "ctx cr'' = ctx ?cr'"
             "finished (reader cr'')"
             "source_buffer (reader cr'') b0 = source_buffer (reader ?cr') b0"
             "scan_result (s_pending ?s3 @ remaining (reader ?cr')) ok s' (remaining (reader cr''))"
          by blast
        have "s_pending ?s3 @ remaining (reader ?cr') = ?text"
          using s2 cr'_facts(4) by simp
        with r sc cr'_facts show ?thesis by auto
      qed
    qed
  qed
qed


section \<open>Repeated searches on a StreamScanner\<close>








section \<open>Searches on an AccumulatedOutput\<close>

lemma waitForKeyword_found_in:
  assumes "found_in (lines_of bs) substr" and "bs = s_pending s @ remaining (reader cr)"
    and "scan_inv s" and "finished (reader cr)" and "env (ctx cr) = None" and "env c = None"
  shows "\<exists>s' cr'. waitForKeyword env sel c cr s substr = Some (Returns None, s', cr') \<and>
           source_buffer (reader cr') b0 = source_buffer (reader cr) b0"
  using assms
proof (induction bs arbitrary: s cr rule: lines_of.induct)
  case (1 bs)
  from "1.prems"(1) have ne: "bs \<noteq> []"
    by (auto simp: lines_of.simps [of bs])
  from Scan_finished [of s cr env sel b0] "1.prems"(2,3,4,5)
  obtain ok s' cr' where
    sc: "Scan env sel cr s = (Returns (ok, s'), cr')" and cx: "ctx cr' = ctx cr"
    and fin: "finished (reader cr')"
    and sb: "source_buffer (reader cr') b0 = source_buffer (reader cr) b0"
    and res: "scan_result bs ok s' (remaining (reader cr'))"
    by auto
  show ?case
  proof (cases "IndexByte bs newline")
    case None
    with "1.prems"(1) ne have short: "length bs < maxTokenSize"
      and found: "Contains (dropCR bs) substr"
      by (auto simp: lines_of.simps [of bs])
    from res None ne short have "ok" "s_token s' = dropCR bs"
      by (simp_all add: scan_result_def)
    with sc found have "waitForKeyword env sel c cr s substr = Some (Returns None, s', cr')"
      by (intro waitForKeyword_found) simp_all
    with sb show ?thesis by blast
  next
    case (Some i)
    from IndexByte_Some [OF Some] have il: "i < length bs" by simp
    from "1.prems"(1) ne Some il have short: "i < maxTokenSize"
      and alt: "Contains (dropCR (take i bs)) substr \<or> found_in (lines_of (drop (i + 1) bs)) substr"
      by (auto simp: lines_of.simps [of bs])
    from res Some short have r: "ok" "s_token s' = dropCR (take i bs)"
      "s_pending s' @ remaining (reader cr') = drop (i + 1) bs" "scan_inv s'"
      by (simp_all add: scan_result_def)
    show ?thesis
    proof (cases "Contains (dropCR (take i bs)) substr")
      case True
      with sc r have "waitForKeyword env sel c cr s substr = Some (Returns None, s', cr')"
        by (intro waitForKeyword_found) simp_all
      with sb show ?thesis by blast
    next
      case False
      with alt have rest: "found_in (lines_of (drop (i + 1) bs)) substr" by simp
      from sc r False "1.prems"(6)
      have step: "waitForKeyword env sel c cr s substr = waitForKeyword env sel c cr' s' substr"
        by (intro waitForKeyword_next) simp_all
      from cx "1.prems"(5) have live: "env (ctx cr') = None" by simp
      from "1.IH" [of i s' cr'] ne Some rest r(3) [symmetric] r(4) fin live "1.prems"(6)
      obtain s'' cr'' where
        "waitForKeyword env sel c cr' s' substr = Some (Returns None, s'', cr'')"
        "source_buffer (reader cr'') b0 = source_buffer (reader cr') b0"
        by blast
      with step sb show ?thesis by auto
    qed
  qed
qed

lemma AccumulatedOutput_search_found:
  assumes "closed (ao_buf s)" and "\<not> m_locked (ao_buf s)" and "env c = None"
    and "found_in (lines_of (buf (ao_buf s))) substr"
  shows "AccumulatedOutput_WaitForKeyword env sel s c substr = Some (Returns None, s)"
proof -
  let ?cr = "\<lparr>reader = AccumulatedOutput_NewReader s, ctx = c, nselect = 0\<rparr>"
  have fin: "finished (reader ?cr)"
    using assms(1,2) by (simp add: AccumulatedOutput_NewReader_def NewReader_def)
  have bs: "buf (ao_buf s) = s_pending NewScanner @ remaining (reader ?cr)"
    by (simp add: AccumulatedOutput_NewReader_def NewReader_def NewScanner_def)
  have inv: "scan_inv NewScanner"
    by (simp add: scan_inv_def NewScanner_def s_end_def)
  have live: "env (ctx ?cr) = None" using assms(3) by simp
  from waitForKeyword_found_in [of "buf (ao_buf s)" substr NewScanner ?cr env c sel "ao_buf s"]
    assms(4) bs inv fin live assms(3)
  obtain s' cr' where
    w: "waitForKeyword env sel c ?cr NewScanner substr = Some (Returns None, s', cr')"
    and b: "source_buffer (reader cr') (ao_buf s) = source_buffer (reader ?cr) (ao_buf s)"
    by blast
  from b have "source_buffer (reader cr') (ao_buf s) = ao_buf s"
    by (simp add: AccumulatedOutput_NewReader_def)
  with w assms(3) show ?thesis
    by (simp add: AccumulatedOutput_WaitForKeyword_def Let_def)
qed

lemma AccumulatedOutput_search_too_long:
  assumes "closed (ao_buf s)" and "\<not> m_locked (ao_buf s)" and "env c = None"
    and "IndexByte (buf (ao_buf s)) newline = Some i" and "maxTokenSize \<le> i"
  shows "AccumulatedOutput_WaitForKeyword env sel s c substr = Some (Returns (Some ErrTooLong), s)"
proof -
  let ?cr = "\<lparr>reader = AccumulatedOutput_NewReader s, ctx = c, nselect = 0\<rparr>"
  have fin: "finished (reader ?cr)"
    using assms(1,2) by (simp add: AccumulatedOutput_NewReader_def NewReader_def)
  have bs: "s_pending NewScanner @ remaining (reader ?cr) = buf (ao_buf s)"
    by (simp add: AccumulatedOutput_NewReader_def NewReader_def NewScanner_def)
  have inv: "scan_inv NewScanner"
    by (simp add: scan_inv_def NewScanner_def s_end_def)
  have live: "env (ctx ?cr) = None" using assms(3) by simp
  from Scan_finished [of NewScanner ?cr env sel "ao_buf s"] inv fin live bs
  obtain ok s' cr' where
    sc: "Scan env sel ?cr NewScanner = (Returns (ok, s'), cr')"
    and sb: "source_buffer (reader cr') (ao_buf s) = source_buffer (reader ?cr) (ao_buf s)"
    and res: "scan_result (buf (ao_buf s)) ok s' (remaining (reader cr'))"
    by auto
  from res assms(4,5) have "\<not> ok" "s_err s' = Some ErrTooLong"
    by (simp_all add: scan_result_def)
  with sc have "Scan env sel ?cr NewScanner = (Returns (False, s'), cr')"
    and "Scanner_Err s' = Some ErrTooLong"
    by (simp_all add: Scanner_Err_def)
  with waitForKeyword_end [of env sel ?cr NewScanner s' cr' c substr]
  have "waitForKeyword env sel c ?cr NewScanner substr = Some (Returns (Some ErrTooLong), s', cr')"
    by simp
  moreover from sb have "source_buffer (reader cr') (ao_buf s) = ao_buf s"
    by (simp add: AccumulatedOutput_NewReader_def)
  ultimately show ?thesis using assms(3)
    by (simp add: AccumulatedOutput_WaitForKeyword_def Let_def)
qed


text \<open>
  C10 as stated, at a closed buffer that holds a line of 65536 bytes followed by the
  line "hello": the search for "hello" does not succeed, the tokenizer gives up on the
  first line with \<open>ErrTooLong\<close>.
\<close>

theorem AccumulatedOutput_search_misses_written_line:
  "lines_of (replicate 65536 (CHR ''a'') @ [newline] @ ''hello'' @ [newline]) =
     [replicate 65536 (CHR ''a''), ''hello''] \<and>
   Contains ''hello'' ''hello'' \<and>
   AccumulatedOutput_WaitForKeyword (\<lambda>c. None) (\<lambda>i. ReadFirst)
     \<lparr>ao_buf = \<lparr>m_locked = False,
                 buf = replicate 65536 (CHR ''a'') @ [newline] @ ''hello'' @ [newline],
                 closed = True\<rparr>\<rparr> 0 ''hello'' =
   Some (Returns (Some ErrTooLong),
         \<lparr>ao_buf = \<lparr>m_locked = False,
                 buf = replicate 65536 (CHR ''a'') @ [newline] @ ''hello'' @ [newline],
                 closed = True\<rparr>\<rparr>)"
proof -
  let ?a = "replicate 65536 (CHR ''a'')"
  let ?bs = "?a @ [newline] @ ''hello'' @ [newline]"
  have na: "IndexByte ?a newline = None"
    by (simp add: IndexByte_None newline_def)
  have ix: "IndexByte ?bs newline = Some 65536"
    using IndexByte_append_None [OF na, of "[newline] @ ''hello'' @ [newline]"] by simp
  have l2: "lines_of (''hello'' @ [newline]) = [''hello'']"
    by (simp add: lines_of.simps newline_def)
  have "lines_of ?bs = take 65536 ?bs # lines_of (drop (65536 + 1) ?bs)"
    using ix by (subst lines_of.simps) simp
  with l2 have l: "lines_of ?bs = [?a, ''hello'']" by simp
  have s: "AccumulatedOutput_WaitForKeyword (\<lambda>c. None) (\<lambda>i. ReadFirst)
     \<lparr>ao_buf = \<lparr>m_locked = False, buf = ?bs, closed = True\<rparr>\<rparr> 0 ''hello'' =
   Some (Returns (Some ErrTooLong), \<lparr>ao_buf = \<lparr>m_locked = False, buf = ?bs, closed = True\<rparr>\<rparr>)"
    using ix by (intro AccumulatedOutput_search_too_long [where i = 65536])
      (simp_all add: maxTokenSize_def)
  from l s show ?thesis by simp
qed


text \<open>
  C10, amended. The lines of the content are the runs of bytes between its newline
  bytes, a last run without a newline included when it is not empty. On a closed buffer
  whose mutex is free, every search of a sequence of searches on one
  \<open>AccumulatedOutput\<close>, each with a context that is not done and with a substring that
  is contained in some written line after the line's trailing carriage return, if it
  has one, is removed, where this line and every line before it, counted with the
  carriage return and without the newline, is shorter than 65536 bytes, succeeds and
  leaves the \<open>AccumulatedOutput\<close> as it was: each search starts again from offset 0, and
  a substring found once is found again by every later search.
\<close>

theorem AccumulatedOutput_searches_rescan:
  assumes "closed (ao_buf s)" and "\<not> m_locked (ao_buf s)"
    and "\<forall>(c, substr) \<in> set calls. env c = None \<and> found_in (lines_of (buf (ao_buf s))) substr"
  shows "AccumulatedOutput_searches env sel s calls = Some (map (\<lambda>call. Returns None) calls, s)"
  using assms(3)
proof (induction calls)
  case Nil
  then show ?case by simp
next
  case (Cons call calls)
  obtain c substr where call: "call = (c, substr)" by (cases call) auto
  with Cons.prems have "env c = None" "found_in (lines_of (buf (ao_buf s))) substr" by auto
  with AccumulatedOutput_search_found [of s env c substr sel] assms(1,2)
  have "AccumulatedOutput_WaitForKeyword env sel s c substr = Some (Returns None, s)" by simp
  moreover from Cons have "AccumulatedOutput_searches env sel s calls =
      Some (map (\<lambda>call. Returns None) calls, s)" by simp
  ultimately show ?case using call by simp
qed



theorem AccumulatedOutput_searches_rescan_witness:
  "AccumulatedOutput_searches (\<lambda>c. None) (\<lambda>i. ReadFirst)
     \<lparr>ao_buf = \<lparr>m_locked = False, buf = ''one'' @ [newline] @ ''two'' @ [newline], closed = True\<rparr>\<rparr>
     [(0, ''two''), (1, ''two''), (2, ''one'')] =
   Some ([Returns None, Returns None, Returns None],
         \<lparr>ao_buf = \<lparr>m_locked = False, buf = ''one'' @ [newline] @ ''two'' @ [newline], closed = True\<rparr>\<rparr>)"
  using AccumulatedOutput_searches_rescan
    [of "\<lparr>ao_buf = \<lparr>m_locked = False, buf = ''one'' @ [newline] @ ''two'' @ [newline], closed = True\<rparr>\<rparr>"
        "[(0, ''two''), (1, ''two''), (2, ''one'')]" "\<lambda>c. None" "\<lambda>i. ReadFirst"]
  by (simp add: lines_of.simps newline_def maxTokenSize_def dropCR_def carriage_return_def)


end
